theory Spec2Isabelle
  imports Main "HOL-Library.Word" "HOL-Library.List_Lexorder"
begin

unbundle bit_operations_syntax

section \<open>Go values shared by both source files\<close>

type_synonym bytes = "8 word list"

text \<open>
  A Go error value is identified by its message. A Go function either returns a value,
  returns an error, or panics (a run-time panic such as a slice or index out of range).
\<close>

type_synonym error = string

datatype 'a result = Value 'a | Error error | Panic string

section \<open>The Merkle proof utility (package proof)\<close>

subsection \<open>Slices that may be nil\<close>

text \<open>
  \<open>hashid.HashId\<close> is a byte slice. The code tests slices against \<open>nil\<close>, so a
  slice is \<open>None\<close> (nil) or \<open>Some bs\<close> (non-nil, holding \<open>bs\<close>). A nil slice has length 0
  and reads as the empty byte string.
\<close>

type_synonym HashId = "bytes option"

definition bytes_of :: "HashId \<Rightarrow> bytes" where
  "bytes_of s = (case s of None \<Rightarrow> [] | Some bs \<Rightarrow> bs)"

text \<open>Go's \<open>append(s, xs...)\<close>: appending nothing to nil gives nil.\<close>

definition append_go :: "HashId \<Rightarrow> bytes \<Rightarrow> HashId" where
  "append_go s xs = (case s of None \<Rightarrow> (if xs = [] then None else Some xs) | Some bs \<Rightarrow> Some (bs @ xs))"

text \<open>Go's \<open>s[:0]\<close>: nil stays nil, a non-nil slice becomes the empty non-nil slice.\<close>

definition reslice0 :: "HashId \<Rightarrow> HashId" where
  "reslice0 s = (case s of None \<Rightarrow> None | Some bs \<Rightarrow> Some [])"

text \<open>\<open>bytes.Compare\<close>: lexicographic on unsigned bytes, nil equal to empty.\<close>

definition Compare :: "HashId \<Rightarrow> HashId \<Rightarrow> int" where
  "Compare a b = (if bytes_of a < bytes_of b then - 1 else if bytes_of a = bytes_of b then 0 else 1)"

text \<open>\<open>subtle.ConstantTimeCompare\<close>: 1 when both slices have the same length and contents.\<close>

definition ConstantTimeCompare :: "HashId \<Rightarrow> HashId \<Rightarrow> int" where
  "ConstantTimeCompare x y =
     (if length (bytes_of x) \<noteq> length (bytes_of y) then 0
      else if bytes_of x = bytes_of y then 1 else 0)"

subsection \<open>The hash interface\<close>

text \<open>
  \<open>hash.Hash\<close> is an interface of the Go library: a streaming hash. Its state is the
  data written since it was created or last reset; \<open>Sum(b)\<close> appends the digest of that
  data to \<open>b\<close>. A \<open>HashFunc\<close> creates such hashes: it is given by the digest function and
  the digest size that \<open>Size()\<close> reports.
\<close>

record HashFunc =
  Size :: nat
  digest :: "bytes \<Rightarrow> bytes"

type_synonym Hash = bytes

definition Write :: "Hash \<Rightarrow> bytes \<Rightarrow> Hash" where
  "Write h p = h @ p"

definition Reset :: "Hash \<Rightarrow> Hash" where
  "Reset h = []"

definition Sum :: "HashFunc \<Rightarrow> Hash \<Rightarrow> HashId \<Rightarrow> HashId" where
  "Sum f h b = append_go b (digest f h)"

record hashContext =
  newHash :: HashFunc
  hash :: "Hash option"

subsection \<open>hashNode, Calc and Check\<close>

definition hashNode :: "hashContext \<Rightarrow> HashId \<Rightarrow> HashId \<Rightarrow> HashId \<Rightarrow> HashId \<times> hashContext" where
  "hashNode c buf left right =
     (let (left, right) = (if Compare left right > 0 then (right, left) else (left, right));
          h = (case hash c of None \<Rightarrow> [] | Some h0 \<Rightarrow> Reset h0);
          h = Write h (bytes_of left);
          h = Write h (bytes_of right);
          s = Sum (newHash c) h buf
      in (s, c\<lparr>hash := Some h\<rparr>))"

text \<open>
  The loop of \<open>Proof.Calc\<close>, \<open>for i := len(p) - 1; i >= 0; i--\<close>: the first argument is
  \<open>i + 1\<close>, the state is the hash context, \<open>buf\<close> and \<open>leaf\<close>.
\<close>

primrec Calc_loop :: "nat \<Rightarrow> HashId list \<Rightarrow> hashContext \<times> HashId \<times> HashId \<Rightarrow> HashId" where
  "Calc_loop 0 p st = snd (snd st)"
| "Calc_loop (Suc i) p st =
     (case st of (c, buf, leaf) \<Rightarrow>
        (case hashNode c (reslice0 buf) leaf (p ! i) of (leaf', c') \<Rightarrow>
           Calc_loop i p (c', leaf', leaf')))"

definition Calc :: "HashId list \<Rightarrow> HashFunc \<Rightarrow> HashId \<Rightarrow> HashId" where
  "Calc p f leaf = Calc_loop (length p) p (\<lparr>newHash = f, hash = None\<rparr>, None, leaf)"

definition Check :: "HashId list \<Rightarrow> HashFunc \<Rightarrow> HashId \<Rightarrow> HashId \<Rightarrow> bool" where
  "Check p f root leaf = (let chk = Calc p f leaf in ConstantTimeCompare chk root \<noteq> 0)"

subsection \<open>ProofTree\<close>

definition sibling :: "nat \<Rightarrow> nat" where
  "sibling i = (if i AND 1 = 1 then i - 1 else i + 1)"

text \<open>
  The depth loop \<open>for n := 1; n < nleaves; n <<= 1 { depth++ }\<close>. Lengths are far below
  the range of Go's \<open>int\<close>, so the counters are natural numbers; the loop is partial
  because it would not end from \<open>n = 0\<close>.
\<close>

partial_function (option) depth_loop :: "nat \<Rightarrow> nat \<Rightarrow> nat \<Rightarrow> nat option" where
  "depth_loop n nleaves depth =
     (if n < nleaves then depth_loop (push_bit 1 n) nleaves (depth + 1) else Some depth)"

declare depth_loop.simps [code]

text \<open>One pass of the inner loop: \<open>tnext[i] = c.hashNode(nil, tprev[i*2], tprev[i*2+1])\<close>.\<close>

definition node_step :: "HashId list \<Rightarrow> nat \<Rightarrow> HashId list \<times> hashContext \<Rightarrow> HashId list \<times> hashContext" where
  "node_step tprev i st =
     (case st of (tnext, c) \<Rightarrow>
        (case hashNode c None (tprev ! (i * 2)) (tprev ! (i * 2 + 1)) of (s, c') \<Rightarrow>
           (tnext[i := s], c')))"

text \<open>
  One level: \<open>tnext\<close> is made with \<open>nnext\<close> nil entries and its first \<open>nnode\<close> entries are
  filled in; \<open>i*2+1 < nprev\<close> for every \<open>i < nnode\<close>, so the reads are in range.
\<close>

definition next_level :: "hashContext \<Rightarrow> HashId list \<Rightarrow> HashId list \<times> hashContext" where
  "next_level c tprev =
     (let nprev = length tprev;
          nnext = drop_bit 1 (nprev + 1);
          nnode = drop_bit 1 nprev
      in fold (node_step tprev) [0..<nnode] (replicate nnext None, c))"

text \<open>
  The level loop \<open>for d := depth - 1; d >= 0; d--\<close>: the first argument is \<open>d + 1\<close>, the
  state is the tree, the context and \<open>tprev\<close> (\<open>nprev\<close> is its length).
\<close>

primrec tree_loop :: "nat \<Rightarrow> HashId list list \<times> hashContext \<times> HashId list \<Rightarrow>
    HashId list list \<times> hashContext \<times> HashId list" where
  "tree_loop 0 st = st"
| "tree_loop (Suc d) st =
     (case st of (tree, c, tprev) \<Rightarrow>
        (case next_level c tprev of (tnext, c') \<Rightarrow>
           tree_loop d (tree[d := tnext], c', tnext)))"

text \<open>
  The inner proof loop \<open>for d := depth - 1; d >= 0; d--\<close> for leaf \<open>i\<close>: the first argument
  is \<open>d + 1\<close>. An index outside the level is a run-time panic (\<open>None\<close>).
\<close>

primrec proof_loop :: "nat \<Rightarrow> HashId list list \<Rightarrow> nat \<Rightarrow> nat \<Rightarrow> HashId list \<Rightarrow> HashId list option" where
  "proof_loop 0 tree depth i p = Some p"
| "proof_loop (Suc d) tree depth i p =
     (if depth - d < length tree \<and> sibling (drop_bit d i) < length (tree ! (depth - d))
      then (let h = tree ! (depth - d) ! sibling (drop_bit d i)
            in proof_loop d tree depth i (if h \<noteq> None then p @ [h] else p))
      else None)"

text \<open>The outer proof loop \<open>for i := 0; i < nleaves; i++\<close>, from \<open>i\<close> with \<open>n\<close> leaves left.\<close>

primrec proofs_loop :: "nat \<Rightarrow> HashId list list \<Rightarrow> nat \<Rightarrow> nat \<Rightarrow> HashId list list option" where
  "proofs_loop 0 tree depth i = Some []"
| "proofs_loop (Suc n) tree depth i =
     (case proof_loop depth tree depth i [] of
        None \<Rightarrow> None
      | Some p \<Rightarrow> (case proofs_loop n tree depth (i + 1) of
                     None \<Rightarrow> None
                   | Some ps \<Rightarrow> Some (p # ps)))"

text \<open>
  \<open>ProofTree\<close> returns the root and the proofs; \<open>None\<close> stands for a run that panics
  (\<open>panic("oops")\<close> or an index out of range) or does not return.
\<close>

definition ProofTree :: "HashFunc \<Rightarrow> HashId list \<Rightarrow> (HashId \<times> HashId list list) option" where
  "ProofTree f leaves =
     (if length leaves = 0 then Some (Some [], [])
      else
        let nleavesArg = length leaves in
        (case depth_loop 1 (length leaves) 0 of
           None \<Rightarrow> None
         | Some depth \<Rightarrow>
             (let nleaves = push_bit depth (1::nat);
                  leaves = leaves @ replicate (nleaves - nleavesArg) (Some (replicate (Size f) 0));
                  c = \<lparr>newHash = f, hash = None\<rparr>;
                  tree = (replicate (depth + 1) [])[depth := leaves]
              in (case tree_loop depth (tree, c, leaves) of (tree, c, tprev) \<Rightarrow>
                    if length tprev \<noteq> 1 then None
                    else (let root = tprev ! 0
                          in (case proofs_loop nleaves tree depth 0 of
                                None \<Rightarrow> None
                              | Some proofs \<Rightarrow>
                                  if nleavesArg \<le> length proofs
                                  then Some (root, take nleavesArg proofs)
                                  else None))))))"

subsection \<open>MerkleGet\<close>

text \<open>
  Go's \<open>int\<close> is taken as 64 bits wide: addition wraps around, and comparison reads the
  value as two's complement.
\<close>

type_synonym go_int = "64 word"

record MerklePath =
  Ptr :: "go_int list"
  Ofs :: go_int
  Len :: go_int

text \<open>
  The slice expression \<open>blob[beg:end]\<close> panics unless \<open>0 <= beg <= end <= cap(blob)\<close>. Both
  uses follow a guard that has established \<open>end <= len(blob)\<close>, so the capacity is never
  what decides; the model checks against the length. \<open>None\<close> is the panic.
\<close>

definition slice :: "bytes \<Rightarrow> go_int \<Rightarrow> go_int \<Rightarrow> bytes option" where
  "slice blob beg end' =
     (if 0 \<le> sint beg \<and> sint beg \<le> sint end' \<and> sint end' \<le> int (length blob)
      then Some (take (nat (sint end') - nat (sint beg)) (drop (nat (sint beg)) blob))
      else None)"

text \<open>
  The loop over \<open>path.Ptr\<close>. \<open>hashid.HashGet\<close> is an interface; its method \<open>Get\<close> is the
  parameter \<open>ctx\<close>, returning the next-level blob or an error.
\<close>

fun follow :: "(bytes \<Rightarrow> error + bytes) \<Rightarrow> bytes \<Rightarrow> go_int list \<Rightarrow> bytes result" where
  "follow ctx blob [] = Value blob"
| "follow ctx blob (p # ps) =
     (let beg = p;
          end' = beg + 256
      in if sint end' > int (length blob) then Error ''bad Merkle tree pointer offset''
         else (case slice blob beg end' of
                 None \<Rightarrow> Panic ''slice bounds out of range''
               | Some hid \<Rightarrow>
                   (case ctx hid of
                      Inl e \<Rightarrow> Error e
                    | Inr b \<Rightarrow> follow ctx b ps)))"

definition MerkleGet :: "bytes \<Rightarrow> MerklePath \<Rightarrow> (bytes \<Rightarrow> error + bytes) \<Rightarrow> bytes result" where
  "MerkleGet root path ctx =
     (case follow ctx root (Ptr path) of
        Panic m \<Rightarrow> Panic m
      | Error e \<Rightarrow> Error e
      | Value blob \<Rightarrow>
          (let beg = Ofs path;
               end' = beg + Len path
           in if sint end' > int (length blob) then Error ''bad Merkle tree object offset/length''
              else (case slice blob beg end' of
                      None \<Rightarrow> Panic ''slice bounds out of range''
                    | Some b \<Rightarrow> Value b)))"

subsection \<open>The levels of the tree\<close>

text \<open>
  Used to state what \<open>ProofTree\<close> builds: \<open>nodeb\<close> is the digest of two children as byte
  strings, smaller first; \<open>parent\<close> is the node \<open>hashNode(nil, l, r)\<close> returns; \<open>up\<close> is the
  level above a level of even length. The lemmas below show that the loops compute them.
\<close>

definition nodeb :: "HashFunc \<Rightarrow> bytes \<Rightarrow> bytes \<Rightarrow> bytes" where
  "nodeb f x y = digest f (if x > y then y @ x else x @ y)"

definition parent :: "HashFunc \<Rightarrow> HashId \<Rightarrow> HashId \<Rightarrow> HashId" where
  "parent f l r = append_go None (nodeb f (bytes_of l) (bytes_of r))"

definition up :: "HashFunc \<Rightarrow> HashId list \<Rightarrow> HashId list" where
  "up f xs = map (\<lambda>i. parent f (xs ! (i * 2)) (xs ! (i * 2 + 1))) [0..<length xs div 2]"

text \<open>A toy hash with two-byte digests, and three leaves, for evaluating \<open>ProofTree\<close>.\<close>

definition toy_hash :: HashFunc where
  "toy_hash = \<lparr>Size = 2, digest = (\<lambda>bs. [fold (+) bs 1, of_nat (length bs)])\<rparr>"

definition toy_leaves :: "HashId list" where
  "toy_leaves = [Some [1, 2], Some [3, 4], Some [5, 6]]"

section \<open>The randomness server (srv.go)\<close>

subsection \<open>Constants, keys and messages\<close>

definition thresT :: nat where "thresT = 2"
definition thresR :: nat where "thresR = 2"
definition thresN :: nat where "thresN = 3"

text \<open>
  \<open>sig.SchnorrPublicKey\<close> is a type of the crypto library; the server reads its field
  \<open>Point\<close>. The other key types, group elements, deals, responses and shares are opaque to
  the server and stay type parameters: \<open>'ck\<close> the client's public key, \<open>'sk\<close> the server's
  secret key, \<open>'kp\<close> a key pair, \<open>'pt\<close> a point, \<open>'sc\<close> a secret (a share),
  \<open>'dl\<close> a promise (deal), \<open>'rp\<close> a response.
\<close>

datatype 'pt SchnorrPublicKey = SchnorrPublicKey (Point: 'pt)

text \<open>
  Modelled from the spec: the message types \<open>I1\<close> ... \<open>R4\<close>, \<open>R3Resp\<close> and \<open>R4Share\<close> are
  declared in a file of the repository that is not among the sources. The spec lists
  them as I1{HRc}, R1{HRs}, I2{Rc}, R2{Rs, Deal}, I3{R2s}, R3{Resp: list of {dealer index,
  share index, response}}, I4{R2s}, R4{Shares: list of {dealer index, share index,
  share}}; srv.go uses the same field names.
\<close>

datatype I1 = I1 (HRc: bytes)
datatype R1 = R1 bytes
datatype I2 = I2 (Rc: bytes)
datatype R2 = R2 (Rs: bytes) (Deal: bytes)
datatype I3 = I3 (R2s: "bytes list")
datatype R3Resp = R3Resp (Dealer: nat) (Index: nat) (Resp: bytes)
datatype R3 = R3 "R3Resp list"
datatype I4 = I4 (R2s: "bytes list")
datatype 'sc R4Share = R4Share nat nat 'sc
datatype 'sc R4 = R4 "'sc R4Share list"

text \<open>The value handed to \<open>send\<close> (\<open>&r1\<close>, \<open>&r2\<close>, \<open>&r3\<close> or \<open>&r4\<close>).\<close>

datatype 'sc obj = ObjR1 R1 | ObjR2 R2 | ObjR3 R3 | ObjR4 "'sc R4"

record ('ck, 'pt, 'sk, 'kp) Server =
  keysize :: nat
  keypair :: 'kp
  clipub :: 'ck
  srvpub :: "'pt SchnorrPublicKey list"
  srvsec :: 'sk
  self :: int

subsection \<open>The collaborators\<close>

text \<open>
  What \<open>serve\<close> calls but does not define: the connection, the cipher and hash of the
  suite, key generation, the secret-sharing operations of the \<open>poly\<close> package, and three
  functions of this repository that are not among the sources (\<open>pickInsurers\<close>,
  \<open>sigEncode\<close>, \<open>sigDecode\<close>). They are the fields of one record of parameters. The
  connection, the server's cipher \<open>s.rand\<close> and the random stream are stateful: the calls
  that are handed one of them take the state of the world \<open>'w\<close> and return the new one.
  The operations of \<open>poly\<close> and the hash are functions of their arguments.
\<close>

text \<open>
  Modelled from the spec: \<open>pickInsurers\<close>, \<open>sigEncode\<close> and \<open>sigDecode\<close> are not among the
  sources. \<open>pickInsurers\<close> is the spec's InsurerSelector, "a pure function mapping (public
  roster, client seed, dealer seed) to an ordered subset of server indices"; the spec
  fixes no algorithm for it, so it is any such function. \<open>sigEncode\<close> and \<open>sigDecode\<close> are
  the spec's MessageAuthenticator, \<open>encode(senderKeyPair, randomSource, payload)\<close> giving
  bytes or an error and \<open>decode(senderPublicKey, bytes)\<close> giving the payload or an error;
  \<open>sigDecode\<close> fills a value of the static type of its last argument, so there is one
  decoder per message type.
\<close>

record ('w, 'ck, 'pt, 'sk, 'kp, 'sc, 'dl, 'rp) env =
  connRecv :: "'w \<Rightarrow> (error + bytes) \<times> 'w"
  connSend :: "bytes \<Rightarrow> 'w \<Rightarrow> error option \<times> 'w"
  XORKeyStream :: "bytes \<Rightarrow> 'w \<Rightarrow> bytes \<times> 'w"
  suiteSum :: "bytes \<Rightarrow> bytes"
  Gen :: "'w \<Rightarrow> 'kp \<times> 'w"
  pickInsurers :: "'pt SchnorrPublicKey list \<Rightarrow> bytes \<Rightarrow> bytes \<Rightarrow> int list"
  ConstructPromise :: "'kp \<Rightarrow> 'kp \<Rightarrow> nat \<Rightarrow> nat \<Rightarrow> 'pt list \<Rightarrow> 'dl"
  MarshalPromise :: "'dl \<Rightarrow> error + bytes"
  UnmarshalPromise :: "nat \<Rightarrow> nat \<Rightarrow> nat \<Rightarrow> bytes \<Rightarrow> error + 'dl"
  ProduceResponse :: "'dl \<Rightarrow> nat \<Rightarrow> 'kp \<Rightarrow> error + ('sc \<times> 'rp)"
  MarshalResponse :: "'rp \<Rightarrow> error + bytes"
  sigEncode :: "'sk \<Rightarrow> 'sc obj \<Rightarrow> 'w \<Rightarrow> (error + bytes) \<times> 'w"
  sigDecodeI1 :: "'ck \<Rightarrow> bytes \<Rightarrow> error + I1"
  sigDecodeI2 :: "'ck \<Rightarrow> bytes \<Rightarrow> error + I2"
  sigDecodeI3 :: "'ck \<Rightarrow> bytes \<Rightarrow> error + I3"
  sigDecodeI4 :: "'ck \<Rightarrow> bytes \<Rightarrow> error + I4"
  sigDecodeR2 :: "'pt SchnorrPublicKey \<Rightarrow> bytes \<Rightarrow> error + R2"

subsection \<open>The session: the world and what went over the connection\<close>

text \<open>
  Every call of \<open>conn.Recv\<close> and \<open>conn.Send\<close> is recorded, in order, with its result:
  \<open>Recv r\<close> for a receive that returned \<open>r\<close>, \<open>Send obj msg r\<close> for the message \<open>msg\<close>
  (the encoding of \<open>obj\<close>) handed to \<open>conn.Send\<close>, which returned \<open>r\<close>.
\<close>

datatype 'sc event = Recv "error + bytes" | Send "'sc obj" bytes "error option"

record ('w, 'sc) session =
  world :: 'w
  trace :: "'sc event list"

definition recv :: "('w, 'ck, 'pt, 'sk, 'kp, 'sc, 'dl, 'rp) env \<Rightarrow> ('ck, 'pt, 'sk, 'kp) Server \<Rightarrow>
    ('ck \<Rightarrow> bytes \<Rightarrow> error + 'a) \<Rightarrow> ('w, 'sc) session \<Rightarrow> (error + 'a) \<times> ('w, 'sc) session" where
  "recv E s decode st =
     (case connRecv E (world st) of (r, w) \<Rightarrow>
        (let st = st\<lparr>world := w, trace := trace st @ [Recv r]\<rparr>
         in (case r of
               Inl err \<Rightarrow> (Inl err, st)
             | Inr msg \<Rightarrow> (decode (clipub s) msg, st))))"

definition send :: "('w, 'ck, 'pt, 'sk, 'kp, 'sc, 'dl, 'rp) env \<Rightarrow> ('ck, 'pt, 'sk, 'kp) Server \<Rightarrow>
    'sc obj \<Rightarrow> ('w, 'sc) session \<Rightarrow> error option \<times> ('w, 'sc) session" where
  "send E s ob st =
     (case sigEncode E (srvsec s) ob (world st) of
        (Inl err, w) \<Rightarrow> (Some err, st\<lparr>world := w\<rparr>)
      | (Inr msg, w) \<Rightarrow>
          (case connSend E msg w of (r, w') \<Rightarrow>
             (r, st\<lparr>world := w', trace := trace st @ [Send ob msg r]\<rparr>)))"

subsection \<open>serve\<close>

text \<open>
  The loop \<open>for i := range sel { selkeys[i] = s.srvpub[sel[i]].Point }\<close>; an index outside
  the roster is a run-time panic (\<open>None\<close>).
\<close>

primrec selkeys_loop :: "'pt SchnorrPublicKey list \<Rightarrow> int list \<Rightarrow> 'pt list option" where
  "selkeys_loop pub [] = Some []"
| "selkeys_loop pub (j # js) =
     (if 0 \<le> j \<and> j < int (length pub)
      then (case selkeys_loop pub js of
              Some ks \<Rightarrow> Some (Point (pub ! nat j) # ks)
            | None \<Rightarrow> None)
      else None)"

text \<open>
  The inner loop of round 3, \<open>for k := range sel\<close>, over the positions still to visit; the
  accumulator is \<open>(shares, r3resps)\<close>, and \<open>Inl err\<close> is the \<open>return err\<close> inside the loop.
\<close>

fun sel_loop :: "('w, 'ck, 'pt, 'sk, 'kp, 'sc, 'dl, 'rp) env \<Rightarrow> ('ck, 'pt, 'sk, 'kp) Server \<Rightarrow>
    nat \<Rightarrow> 'dl \<Rightarrow> int list \<Rightarrow> nat list \<Rightarrow> 'sc R4Share list \<times> R3Resp list \<Rightarrow>
    error + 'sc R4Share list \<times> R3Resp list" where
  "sel_loop E s i deal sel [] acc = Inr acc"
| "sel_loop E s i deal sel (k # ks) acc =
     (if sel ! k \<noteq> self s then sel_loop E s i deal sel ks acc
      else (case ProduceResponse E deal k (keypair s) of
              Inl err \<Rightarrow> Inl err
            | Inr (share, resp) \<Rightarrow>
                (case MarshalResponse E resp of
                   Inl err \<Rightarrow> Inl err
                 | Inr b \<Rightarrow>
                     sel_loop E s i deal sel ks
                       (fst acc @ [R4Share i k share], snd acc @ [R3Resp i k b]))))"

text \<open>
  The outer loop of round 3, \<open>for i := 0; i < nsrv; i++\<close>, over the slots still to visit.
  It runs after the length check, so \<open>i3.R2s[i]\<close> and \<open>s.srvpub[i]\<close> are in range.
\<close>

fun i3_loop :: "('w, 'ck, 'pt, 'sk, 'kp, 'sc, 'dl, 'rp) env \<Rightarrow> ('ck, 'pt, 'sk, 'kp) Server \<Rightarrow>
    bytes \<Rightarrow> I3 \<Rightarrow> nat list \<Rightarrow> 'sc R4Share list \<times> R3Resp list \<Rightarrow>
    error + 'sc R4Share list \<times> R3Resp list" where
  "i3_loop E s Rc' i3 [] acc = Inr acc"
| "i3_loop E s Rc' i3 (i # is) acc =
     (let r2ib = I3.R2s i3 ! i
      in if length r2ib = 0 then i3_loop E s Rc' i3 is acc
         else (case sigDecodeR2 E (srvpub s ! i) r2ib of
                 Inl err \<Rightarrow> Inl err
               | Inr r2i \<Rightarrow>
                   (case UnmarshalPromise E thresT thresR thresN (Deal r2i) of
                      Inl err \<Rightarrow> Inl err
                    | Inr deal \<Rightarrow>
                        (let sel = pickInsurers E (srvpub s) Rc' (Rs r2i)
                         in (case sel_loop E s i deal sel [0..<length sel] acc of
                               Inl err \<Rightarrow> Inl err
                             | Inr acc' \<Rightarrow> i3_loop E s Rc' i3 is acc')))))"

text \<open>The loop of round 4 over the slots still to visit: the first discrepancy is the error.\<close>

fun i4_loop :: "I4 \<Rightarrow> I3 \<Rightarrow> nat list \<Rightarrow> error option" where
  "i4_loop i4 i3 [] = None"
| "i4_loop i4 i3 (i # is) =
     (let r2ib = I4.R2s i4 ! i
      in if length r2ib \<noteq> 0 \<and> r2ib \<noteq> I3.R2s i3 ! i
         then Some ''R2 set in I4 not a subset of I3''
         else i4_loop i4 i3 is)"

text \<open>
  \<open>serve\<close> is one function in the source; it is written here as four definitions, one
  per round, each the rest of the body from its receive on. The result is \<open>Value ()\<close> for
  a nil error, \<open>Error e\<close> for a returned error, \<open>Panic m\<close> for a run-time panic.
\<close>

definition serve_round4 :: "('w, 'ck, 'pt, 'sk, 'kp, 'sc, 'dl, 'rp) env \<Rightarrow> ('ck, 'pt, 'sk, 'kp) Server \<Rightarrow>
    I3 \<Rightarrow> 'sc R4Share list \<Rightarrow> ('w, 'sc) session \<Rightarrow> unit result \<times> ('w, 'sc) session" where
  "serve_round4 E s i3 shares st =
     (case recv E s (sigDecodeI4 E) st of
        (Inl err, st) \<Rightarrow> (Error err, st)
      | (Inr i4, st) \<Rightarrow>
          (let nsrv = length (srvpub s)
           in if length (I4.R2s i4) \<noteq> nsrv
              then (Error ''wrong-length R2 array in I4 message'', st)
              else (case i4_loop i4 i3 [0..<nsrv] of
                      Some err \<Rightarrow> (Error err, st)
                    | None \<Rightarrow>
                        (let r4 = R4 shares
                         in (case send E s (ObjR4 r4) st of
                               (Some err, st) \<Rightarrow> (Error err, st)
                             | (None, st) \<Rightarrow> (Value (), st))))))"

definition serve_round3 :: "('w, 'ck, 'pt, 'sk, 'kp, 'sc, 'dl, 'rp) env \<Rightarrow> ('ck, 'pt, 'sk, 'kp) Server \<Rightarrow>
    bytes \<Rightarrow> ('w, 'sc) session \<Rightarrow> unit result \<times> ('w, 'sc) session" where
  "serve_round3 E s Rc' st =
     (case recv E s (sigDecodeI3 E) st of
        (Inl err, st) \<Rightarrow> (Error err, st)
      | (Inr i3, st) \<Rightarrow>
          (let nsrv = length (srvpub s)
           in if length (I3.R2s i3) \<noteq> nsrv
              then (Error ''wrong-length R2 array in I3 message'', st)
              else (case i3_loop E s Rc' i3 [0..<nsrv] ([], []) of
                      Inl err \<Rightarrow> (Error err, st)
                    | Inr (shares, r3resps) \<Rightarrow>
                        (let r3 = R3 r3resps
                         in (case send E s (ObjR3 r3) st of
                               (Some err, st) \<Rightarrow> (Error err, st)
                             | (None, st) \<Rightarrow> serve_round4 E s i3 shares st)))))"

definition serve_round2 :: "('w, 'ck, 'pt, 'sk, 'kp, 'sc, 'dl, 'rp) env \<Rightarrow> ('ck, 'pt, 'sk, 'kp) Server \<Rightarrow>
    I1 \<Rightarrow> bytes \<Rightarrow> ('w, 'sc) session \<Rightarrow> unit result \<times> ('w, 'sc) session" where
  "serve_round2 E s i1 Rs' st =
     (case recv E s (sigDecodeI2 E) st of
        (Inl err, st) \<Rightarrow> (Error err, st)
      | (Inr i2, st) \<Rightarrow>
          (let Rc' = Rc i2;
               HRc' = suiteSum E Rc'
           in if HRc' \<noteq> HRc i1 then (Error ''client random hash mismatch'', st)
              else (case Gen E (world st) of (secPair, w) \<Rightarrow>
                      (let st = st\<lparr>world := w\<rparr>;
                           sel = pickInsurers E (srvpub s) Rc' Rs'
                       in (case selkeys_loop (srvpub s) sel of
                             None \<Rightarrow> (Panic ''index out of range'', st)
                           | Some selkeys \<Rightarrow>
                               (let deal = ConstructPromise E secPair (keypair s) thresT thresR selkeys
                                in (case MarshalPromise E deal of
                                      Inl err \<Rightarrow> (Error err, st)
                                    | Inr dealb \<Rightarrow>
                                        (let r2 = R2 Rs' dealb
                                         in (case send E s (ObjR2 r2) st of
                                               (Some err, st) \<Rightarrow> (Error err, st)
                                             | (None, st) \<Rightarrow> serve_round3 E s Rc' st)))))))))"

definition serve :: "('w, 'ck, 'pt, 'sk, 'kp, 'sc, 'dl, 'rp) env \<Rightarrow> ('ck, 'pt, 'sk, 'kp) Server \<Rightarrow>
    ('w, 'sc) session \<Rightarrow> unit result \<times> ('w, 'sc) session" where
  "serve E s st =
     (case recv E s (sigDecodeI1 E) st of
        (Inl err, st) \<Rightarrow> (Error err, st)
      | (Inr i1, st) \<Rightarrow>
          (case XORKeyStream E (replicate (keysize s) 0) (world st) of (Rs', w) \<Rightarrow>
             (let st = st\<lparr>world := w\<rparr>;
                  r1 = R1 (suiteSum E Rs')
              in (case send E s (ObjR1 r1) st of
                    (Some err, st) \<Rightarrow> (Error err, st)
                  | (None, st) \<Rightarrow> serve_round2 E s i1 Rs' st))))"

subsection \<open>The runs of serve\<close>

text \<open>
  The proofs below read \<open>serve\<close> through the relation between the events of a session
  and its result, one predicate per round: each disjunct is one way through the round
  (the receive fails, the message does not decode, a check fails, the encoding fails,
  the send fails, or the round hands over to the next one). Where the encoding fails
  nothing reaches the connection, so the events end with the receive.
\<close>

definition round4_run :: "('w, 'ck, 'pt, 'sk, 'kp, 'sc, 'dl, 'rp) env \<Rightarrow> ('ck, 'pt, 'sk, 'kp) Server \<Rightarrow>
    I3 \<Rightarrow> 'sc R4Share list \<Rightarrow> 'sc event list \<Rightarrow> unit result \<Rightarrow> bool" where
  "round4_run E s i3 shares evs res \<longleftrightarrow>
     (\<exists>e. evs = [Recv (Inl e)] \<and> res = Error e)
   \<or> (\<exists>m e. evs = [Recv (Inr m)] \<and> sigDecodeI4 E (clipub s) m = Inl e \<and> res = Error e)
   \<or> (\<exists>m i4. evs = [Recv (Inr m)] \<and> sigDecodeI4 E (clipub s) m = Inr i4
        \<and> length (I4.R2s i4) \<noteq> length (srvpub s)
        \<and> res = Error ''wrong-length R2 array in I4 message'')
   \<or> (\<exists>m i4 err. evs = [Recv (Inr m)] \<and> sigDecodeI4 E (clipub s) m = Inr i4
        \<and> length (I4.R2s i4) = length (srvpub s)
        \<and> i4_loop i4 i3 [0..<length (srvpub s)] = Some err \<and> res = Error err)
   \<or> (\<exists>m i4 e w w'. evs = [Recv (Inr m)] \<and> sigDecodeI4 E (clipub s) m = Inr i4
        \<and> length (I4.R2s i4) = length (srvpub s)
        \<and> i4_loop i4 i3 [0..<length (srvpub s)] = None
        \<and> sigEncode E (srvsec s) (ObjR4 (R4 shares)) w = (Inl e, w') \<and> res = Error e)
   \<or> (\<exists>m i4 b e. evs = [Recv (Inr m), Send (ObjR4 (R4 shares)) b (Some e)]
        \<and> sigDecodeI4 E (clipub s) m = Inr i4
        \<and> length (I4.R2s i4) = length (srvpub s)
        \<and> i4_loop i4 i3 [0..<length (srvpub s)] = None
        \<and> res = Error e)
   \<or> (\<exists>m i4 b. evs = [Recv (Inr m), Send (ObjR4 (R4 shares)) b None]
        \<and> sigDecodeI4 E (clipub s) m = Inr i4
        \<and> length (I4.R2s i4) = length (srvpub s)
        \<and> i4_loop i4 i3 [0..<length (srvpub s)] = None
        \<and> res = Value ())"

definition round3_run :: "('w, 'ck, 'pt, 'sk, 'kp, 'sc, 'dl, 'rp) env \<Rightarrow> ('ck, 'pt, 'sk, 'kp) Server \<Rightarrow>
    bytes \<Rightarrow> 'sc event list \<Rightarrow> unit result \<Rightarrow> bool" where
  "round3_run E s rc evs res \<longleftrightarrow>
     (\<exists>e. evs = [Recv (Inl e)] \<and> res = Error e)
   \<or> (\<exists>m e. evs = [Recv (Inr m)] \<and> sigDecodeI3 E (clipub s) m = Inl e \<and> res = Error e)
   \<or> (\<exists>m i3. evs = [Recv (Inr m)] \<and> sigDecodeI3 E (clipub s) m = Inr i3
        \<and> length (I3.R2s i3) \<noteq> length (srvpub s)
        \<and> res = Error ''wrong-length R2 array in I3 message'')
   \<or> (\<exists>m i3 err. evs = [Recv (Inr m)] \<and> sigDecodeI3 E (clipub s) m = Inr i3
        \<and> length (I3.R2s i3) = length (srvpub s)
        \<and> i3_loop E s rc i3 [0..<length (srvpub s)] ([], []) = Inl err \<and> res = Error err)
   \<or> (\<exists>m i3 shares resps e w w'. evs = [Recv (Inr m)] \<and> sigDecodeI3 E (clipub s) m = Inr i3
        \<and> length (I3.R2s i3) = length (srvpub s)
        \<and> i3_loop E s rc i3 [0..<length (srvpub s)] ([], []) = Inr (shares, resps)
        \<and> sigEncode E (srvsec s) (ObjR3 (R3 resps)) w = (Inl e, w') \<and> res = Error e)
   \<or> (\<exists>m i3 shares resps b e. evs = [Recv (Inr m), Send (ObjR3 (R3 resps)) b (Some e)]
        \<and> sigDecodeI3 E (clipub s) m = Inr i3
        \<and> length (I3.R2s i3) = length (srvpub s)
        \<and> i3_loop E s rc i3 [0..<length (srvpub s)] ([], []) = Inr (shares, resps)
        \<and> res = Error e)
   \<or> (\<exists>m i3 shares resps b evs4. evs = Recv (Inr m) # Send (ObjR3 (R3 resps)) b None # evs4
        \<and> sigDecodeI3 E (clipub s) m = Inr i3
        \<and> length (I3.R2s i3) = length (srvpub s)
        \<and> i3_loop E s rc i3 [0..<length (srvpub s)] ([], []) = Inr (shares, resps)
        \<and> round4_run E s i3 shares evs4 res)"

definition round2_run :: "('w, 'ck, 'pt, 'sk, 'kp, 'sc, 'dl, 'rp) env \<Rightarrow> ('ck, 'pt, 'sk, 'kp) Server \<Rightarrow>
    I1 \<Rightarrow> bytes \<Rightarrow> 'sc event list \<Rightarrow> unit result \<Rightarrow> bool" where
  "round2_run E s i1 rs evs res \<longleftrightarrow>
     (\<exists>e. evs = [Recv (Inl e)] \<and> res = Error e)
   \<or> (\<exists>m e. evs = [Recv (Inr m)] \<and> sigDecodeI2 E (clipub s) m = Inl e \<and> res = Error e)
   \<or> (\<exists>m i2. evs = [Recv (Inr m)] \<and> sigDecodeI2 E (clipub s) m = Inr i2
        \<and> suiteSum E (Rc i2) \<noteq> HRc i1 \<and> res = Error ''client random hash mismatch'')
   \<or> (\<exists>m i2. evs = [Recv (Inr m)] \<and> sigDecodeI2 E (clipub s) m = Inr i2
        \<and> suiteSum E (Rc i2) = HRc i1
        \<and> selkeys_loop (srvpub s) (pickInsurers E (srvpub s) (Rc i2) rs) = None
        \<and> res = Panic ''index out of range'')
   \<or> (\<exists>m i2 secPair selkeys e. evs = [Recv (Inr m)] \<and> sigDecodeI2 E (clipub s) m = Inr i2
        \<and> suiteSum E (Rc i2) = HRc i1
        \<and> selkeys_loop (srvpub s) (pickInsurers E (srvpub s) (Rc i2) rs) = Some selkeys
        \<and> MarshalPromise E (ConstructPromise E secPair (keypair s) thresT thresR selkeys) = Inl e
        \<and> res = Error e)
   \<or> (\<exists>m i2 secPair selkeys dealb e w w'. evs = [Recv (Inr m)] \<and> sigDecodeI2 E (clipub s) m = Inr i2
        \<and> suiteSum E (Rc i2) = HRc i1
        \<and> selkeys_loop (srvpub s) (pickInsurers E (srvpub s) (Rc i2) rs) = Some selkeys
        \<and> MarshalPromise E (ConstructPromise E secPair (keypair s) thresT thresR selkeys) = Inr dealb
        \<and> sigEncode E (srvsec s) (ObjR2 (R2 rs dealb)) w = (Inl e, w') \<and> res = Error e)
   \<or> (\<exists>m i2 secPair selkeys dealb b e. evs = [Recv (Inr m), Send (ObjR2 (R2 rs dealb)) b (Some e)]
        \<and> sigDecodeI2 E (clipub s) m = Inr i2
        \<and> suiteSum E (Rc i2) = HRc i1
        \<and> selkeys_loop (srvpub s) (pickInsurers E (srvpub s) (Rc i2) rs) = Some selkeys
        \<and> MarshalPromise E (ConstructPromise E secPair (keypair s) thresT thresR selkeys) = Inr dealb
        \<and> res = Error e)
   \<or> (\<exists>m i2 secPair selkeys dealb b evs3. evs = Recv (Inr m) # Send (ObjR2 (R2 rs dealb)) b None # evs3
        \<and> sigDecodeI2 E (clipub s) m = Inr i2
        \<and> suiteSum E (Rc i2) = HRc i1
        \<and> selkeys_loop (srvpub s) (pickInsurers E (srvpub s) (Rc i2) rs) = Some selkeys
        \<and> MarshalPromise E (ConstructPromise E secPair (keypair s) thresT thresR selkeys) = Inr dealb
        \<and> round3_run E s (Rc i2) evs3 res)"

definition serve_run :: "('w, 'ck, 'pt, 'sk, 'kp, 'sc, 'dl, 'rp) env \<Rightarrow> ('ck, 'pt, 'sk, 'kp) Server \<Rightarrow>
    'sc event list \<Rightarrow> unit result \<Rightarrow> bool" where
  "serve_run E s evs res \<longleftrightarrow>
     (\<exists>e. evs = [Recv (Inl e)] \<and> res = Error e)
   \<or> (\<exists>m e. evs = [Recv (Inr m)] \<and> sigDecodeI1 E (clipub s) m = Inl e \<and> res = Error e)
   \<or> (\<exists>m i1 rs e w w'. evs = [Recv (Inr m)] \<and> sigDecodeI1 E (clipub s) m = Inr i1
        \<and> sigEncode E (srvsec s) (ObjR1 (R1 (suiteSum E rs))) w = (Inl e, w') \<and> res = Error e)
   \<or> (\<exists>m i1 rs b e. evs = [Recv (Inr m), Send (ObjR1 (R1 (suiteSum E rs))) b (Some e)]
        \<and> sigDecodeI1 E (clipub s) m = Inr i1 \<and> res = Error e)
   \<or> (\<exists>m i1 rs b evs2. evs = Recv (Inr m) # Send (ObjR1 (R1 (suiteSum E rs))) b None # evs2
        \<and> sigDecodeI1 E (clipub s) m = Inr i1
        \<and> round2_run E s i1 rs evs2 res)"

text \<open>
  The order of the protocol. An event is a step of the order; \<open>follows\<close> holds when the
  events are, one by one, the first steps of the order and every event but the last
  succeeded (a failed receive or send is the last thing that happens).
\<close>

fun event_ok :: "'sc event \<Rightarrow> bool" where
  "event_ok (Recv r) = (case r of Inl e \<Rightarrow> False | Inr m \<Rightarrow> True)"
| "event_ok (Send ob m r) = (r = None)"

datatype step = RecvStep | SendR1 | SendR2 | SendR3 | SendR4

fun step_of :: "'sc event \<Rightarrow> step" where
  "step_of (Recv r) = RecvStep"
| "step_of (Send (ObjR1 x) m r) = SendR1"
| "step_of (Send (ObjR2 x) m r) = SendR2"
| "step_of (Send (ObjR3 x) m r) = SendR3"
| "step_of (Send (ObjR4 x) m r) = SendR4"

fun follows :: "step list \<Rightarrow> 'sc event list \<Rightarrow> bool" where
  "follows ps [] = True"
| "follows [] (e # es) = False"
| "follows (p # ps) (e # es) = (step_of e = p \<and> (es = [] \<or> event_ok e) \<and> follows ps es)"

definition protocol_order :: "step list" where
  "protocol_order = [RecvStep, SendR1, RecvStep, SendR2, RecvStep, SendR3, RecvStep, SendR4]"

subsection \<open>What round 3 retains, slot by slot\<close>

text \<open>
  The claims about round 3 and round 4 are stated with these definitions, which follow
  the words of the claims rather than the loops: the positions at which the selection
  for a dealer's seed places this server; what makes a present slot fail (its signature
  does not decode, its deal does not deserialise, or at one of those positions the
  response cannot be produced or marshalled); and the shares and responses a slot
  contributes, one per position. They are compared with the loops of \<open>serve\<close> below.
\<close>

definition positions :: "('w, 'ck, 'pt, 'sk, 'kp, 'sc, 'dl, 'rp) env \<Rightarrow> ('ck, 'pt, 'sk, 'kp) Server \<Rightarrow>
    bytes \<Rightarrow> R2 \<Rightarrow> nat list" where
  "positions E s rc r2i =
     (let sel = pickInsurers E (srvpub s) rc (Rs r2i)
      in filter (\<lambda>k. sel ! k = self s) [0..<length sel])"

definition response_failure :: "('w, 'ck, 'pt, 'sk, 'kp, 'sc, 'dl, 'rp) env \<Rightarrow> ('ck, 'pt, 'sk, 'kp) Server \<Rightarrow>
    'dl \<Rightarrow> nat \<Rightarrow> bool" where
  "response_failure E s deal k =
     (case ProduceResponse E deal k (keypair s) of
        Inl e \<Rightarrow> True
      | Inr (share, resp) \<Rightarrow> (case MarshalResponse E resp of Inl e \<Rightarrow> True | Inr b \<Rightarrow> False))"

definition slot_failure :: "('w, 'ck, 'pt, 'sk, 'kp, 'sc, 'dl, 'rp) env \<Rightarrow> ('ck, 'pt, 'sk, 'kp) Server \<Rightarrow>
    bytes \<Rightarrow> I3 \<Rightarrow> nat \<Rightarrow> bool" where
  "slot_failure E s rc i3 i =
     (I3.R2s i3 ! i \<noteq> [] \<and>
      (case sigDecodeR2 E (srvpub s ! i) (I3.R2s i3 ! i) of
         Inl e \<Rightarrow> True
       | Inr r2i \<Rightarrow>
           (case UnmarshalPromise E thresT thresR thresN (Deal r2i) of
              Inl e \<Rightarrow> True
            | Inr deal \<Rightarrow> list_ex (response_failure E s deal) (positions E s rc r2i))))"

definition share_at :: "('w, 'ck, 'pt, 'sk, 'kp, 'sc, 'dl, 'rp) env \<Rightarrow> ('ck, 'pt, 'sk, 'kp) Server \<Rightarrow>
    nat \<Rightarrow> 'dl \<Rightarrow> nat \<Rightarrow> 'sc R4Share list" where
  "share_at E s i deal k =
     (case ProduceResponse E deal k (keypair s) of
        Inl e \<Rightarrow> []
      | Inr (share, resp) \<Rightarrow> [R4Share i k share])"

definition resp_at :: "('w, 'ck, 'pt, 'sk, 'kp, 'sc, 'dl, 'rp) env \<Rightarrow> ('ck, 'pt, 'sk, 'kp) Server \<Rightarrow>
    nat \<Rightarrow> 'dl \<Rightarrow> nat \<Rightarrow> R3Resp list" where
  "resp_at E s i deal k =
     (case ProduceResponse E deal k (keypair s) of
        Inl e \<Rightarrow> []
      | Inr (share, resp) \<Rightarrow> (case MarshalResponse E resp of Inl e \<Rightarrow> [] | Inr b \<Rightarrow> [R3Resp i k b]))"

definition slot_shares :: "('w, 'ck, 'pt, 'sk, 'kp, 'sc, 'dl, 'rp) env \<Rightarrow> ('ck, 'pt, 'sk, 'kp) Server \<Rightarrow>
    bytes \<Rightarrow> I3 \<Rightarrow> nat \<Rightarrow> 'sc R4Share list" where
  "slot_shares E s rc i3 i =
     (if I3.R2s i3 ! i = [] then []
      else (case sigDecodeR2 E (srvpub s ! i) (I3.R2s i3 ! i) of
              Inl e \<Rightarrow> []
            | Inr r2i \<Rightarrow>
                (case UnmarshalPromise E thresT thresR thresN (Deal r2i) of
                   Inl e \<Rightarrow> []
                 | Inr deal \<Rightarrow> concat (map (share_at E s i deal) (positions E s rc r2i)))))"

definition slot_resps :: "('w, 'ck, 'pt, 'sk, 'kp, 'sc, 'dl, 'rp) env \<Rightarrow> ('ck, 'pt, 'sk, 'kp) Server \<Rightarrow>
    bytes \<Rightarrow> I3 \<Rightarrow> nat \<Rightarrow> R3Resp list" where
  "slot_resps E s rc i3 i =
     (if I3.R2s i3 ! i = [] then []
      else (case sigDecodeR2 E (srvpub s ! i) (I3.R2s i3 ! i) of
              Inl e \<Rightarrow> []
            | Inr r2i \<Rightarrow>
                (case UnmarshalPromise E thresT thresR thresN (Deal r2i) of
                   Inl e \<Rightarrow> []
                 | Inr deal \<Rightarrow> concat (map (resp_at E s i deal) (positions E s rc r2i)))))"

definition present :: "I3 \<Rightarrow> nat \<Rightarrow> bool" where
  "present i3 i = (I3.R2s i3 ! i \<noteq> [])"

definition slot_positions :: "('w, 'ck, 'pt, 'sk, 'kp, 'sc, 'dl, 'rp) env \<Rightarrow> ('ck, 'pt, 'sk, 'kp) Server \<Rightarrow>
    bytes \<Rightarrow> I3 \<Rightarrow> nat \<Rightarrow> nat list" where
  "slot_positions E s rc i3 i =
     (case sigDecodeR2 E (srvpub s ! i) (I3.R2s i3 ! i) of
        Inl e \<Rightarrow> []
      | Inr r2i \<Rightarrow> positions E s rc r2i)"

fun share_key :: "'sc R4Share \<Rightarrow> nat \<times> nat" where
  "share_key (R4Share i k share) = (i, k)"

definition resp_key :: "R3Resp \<Rightarrow> nat \<times> nat" where
  "resp_key r = (Dealer r, Index r)"

subsection \<open>The checks of serve on the messages\<close>

text \<open>
  \<open>answered\<close> are the messages of a session that the server answered with a send, in
  order. \<open>checks_pass\<close> says that a sequence of messages, taken as I1, I2, I3 and I4 in
  this order, passes the checks \<open>serve\<close> makes before it answers, as far as there are
  messages: I1 decodes; I2 decodes and its seed hashes to the commitment of I1; I3
  decodes, has one slot per server and no slot fails; I4 decodes, has one slot per
  server and every populated slot repeats the I3 slot.
\<close>

fun answered :: "'sc event list \<Rightarrow> bytes list" where
  "answered (Recv (Inr m) # Send ob b x # es) = m # answered es"
| "answered es = []"

definition checks_pass :: "('w, 'ck, 'pt, 'sk, 'kp, 'sc, 'dl, 'rp) env \<Rightarrow> ('ck, 'pt, 'sk, 'kp) Server \<Rightarrow>
    bytes list \<Rightarrow> bool" where
  "checks_pass E s ms =
     (case ms of
        [] \<Rightarrow> True
      | m1 # ms1 \<Rightarrow>
          (case sigDecodeI1 E (clipub s) m1 of
             Inl e \<Rightarrow> False
           | Inr i1 \<Rightarrow>
               (case ms1 of
                  [] \<Rightarrow> True
                | m2 # ms2 \<Rightarrow>
                    (case sigDecodeI2 E (clipub s) m2 of
                       Inl e \<Rightarrow> False
                     | Inr i2 \<Rightarrow>
                         suiteSum E (Rc i2) = HRc i1 \<and>
                         (case ms2 of
                            [] \<Rightarrow> True
                          | m3 # ms3 \<Rightarrow>
                              (case sigDecodeI3 E (clipub s) m3 of
                                 Inl e \<Rightarrow> False
                               | Inr i3 \<Rightarrow>
                                   length (I3.R2s i3) = length (srvpub s) \<and>
                                   \<not> list_ex (slot_failure E s (Rc i2) i3) [0..<length (srvpub s)] \<and>
                                   (case ms3 of
                                      [] \<Rightarrow> True
                                    | m4 # ms4 \<Rightarrow>
                                        (case sigDecodeI4 E (clipub s) m4 of
                                           Inl e \<Rightarrow> False
                                         | Inr i4 \<Rightarrow>
                                             length (I4.R2s i4) = length (srvpub s) \<and>
                                             list_all (\<lambda>i. I4.R2s i4 ! i = [] \<or> I4.R2s i4 ! i = I3.R2s i3 ! i)
                                               [0..<length (srvpub s)]))))))))"

subsection \<open>Honest sessions\<close>

text \<open>
  Modelled from the spec: the client is not among the sources; the spec gives the
  message contract it must satisfy. A session has one connection per server of the
  roster, and every server runs \<open>serve\<close> on its own connection (\<open>events\<close> are the events
  of that run). The client is the sole relay: it commits to its seed in I1
  (\<open>HRc = Hash(Rc)\<close>), reveals it in I2, aggregates in I3 the R2 messages the servers
  sent, one slot per roster position (\<open>r2_sent\<close>, empty when a server sent none), and
  names in I4 its accepted subset: every slot is empty or the R2 of that position.
  \<open>delivered\<close> says that the transport handed the client's messages to the server in
  order and accepted every send. \<open>roster\<close> says that the servers were initialised with
  the same public roster and their own position in it. \<open>r2_seed\<close> is the seed a server
  revealed in its R2.
\<close>

fun r2_sent :: "'sc event list \<Rightarrow> bytes" where
  "r2_sent [] = []"
| "r2_sent (Send (ObjR2 x) b r # es) = b"
| "r2_sent (e # es) = r2_sent es"

fun r2_seed :: "'sc event list \<Rightarrow> bytes" where
  "r2_seed [] = []"
| "r2_seed (Send (ObjR2 x) b r # es) = Rs x"
| "r2_seed (e # es) = r2_seed es"

fun delivered :: "bytes list \<Rightarrow> 'sc event list \<Rightarrow> bool" where
  "delivered ms [] = True"
| "delivered ms (Send ob b r # es) = (r = None \<and> delivered ms es)"
| "delivered (m # ms) (Recv r # es) = (r = Inr m \<and> delivered ms es)"
| "delivered [] (Recv r # es) = False"

definition events :: "('w, 'ck, 'pt, 'sk, 'kp, 'sc, 'dl, 'rp) env \<Rightarrow> ('ck, 'pt, 'sk, 'kp) Server \<Rightarrow>
    ('w, 'sc) session \<Rightarrow> 'sc event list" where
  "events E s st = drop (length (trace st)) (trace (snd (serve E s st)))"

definition honest_client :: "('w, 'ck, 'pt, 'sk, 'kp, 'sc, 'dl, 'rp) env \<Rightarrow> 'ck \<Rightarrow> bytes \<Rightarrow> bytes list \<Rightarrow>
    bytes list \<Rightarrow> bytes list \<Rightarrow> bool" where
  "honest_client E ck rc r2s acc ms \<longleftrightarrow>
     length ms = 4
     \<and> sigDecodeI1 E ck (ms ! 0) = Inr (I1 (suiteSum E rc))
     \<and> sigDecodeI2 E ck (ms ! 1) = Inr (I2 rc)
     \<and> sigDecodeI3 E ck (ms ! 2) = Inr (I3 r2s)
     \<and> sigDecodeI4 E ck (ms ! 3) = Inr (I4 acc)
     \<and> length acc = length r2s
     \<and> list_all (\<lambda>j. acc ! j = [] \<or> acc ! j = r2s ! j) [0..<length r2s]"

definition honest_session :: "('w, 'ck, 'pt, 'sk, 'kp, 'sc, 'dl, 'rp) env \<Rightarrow> ('ck, 'pt, 'sk, 'kp) Server list \<Rightarrow>
    ('w, 'sc) session list \<Rightarrow> bytes \<Rightarrow> bytes list \<Rightarrow> bytes list list \<Rightarrow> bool" where
  "honest_session E ss sts rc acc mss \<longleftrightarrow>
     length sts = length ss \<and> length mss = length ss
     \<and> list_all (\<lambda>i. honest_client E (clipub (ss ! i)) rc
                       (map (\<lambda>j. r2_sent (events E (ss ! j) (sts ! j))) [0..<length ss]) acc (mss ! i)
                     \<and> delivered (mss ! i) (events E (ss ! i) (sts ! i)))
         [0..<length ss]"

definition roster :: "('ck, 'pt, 'sk, 'kp) Server list \<Rightarrow> 'pt SchnorrPublicKey list \<Rightarrow> bool" where
  "roster ss pub \<longleftrightarrow>
     length pub = length ss
     \<and> list_all (\<lambda>i. srvpub (ss ! i) = pub \<and> self (ss ! i) = int i) [0..<length ss]"

text \<open>
  The (dealer, index) pairs a server holds: for each dealer, the positions at which the
  selection for the dealer's seed names server \<open>i\<close>.
\<close>

definition held :: "('w, 'ck, 'pt, 'sk, 'kp, 'sc, 'dl, 'rp) env \<Rightarrow> 'pt SchnorrPublicKey list \<Rightarrow> bytes \<Rightarrow>
    bytes list \<Rightarrow> nat \<Rightarrow> (nat \<times> nat) list" where
  "held E pub rc seeds i =
     concat (map (\<lambda>j. map (Pair j)
                        (filter (\<lambda>k. pickInsurers E pub rc (seeds ! j) ! k = int i) [0..<thresN]))
               [0..<length seeds])"

text \<open>
  Modelled from the spec: what a session relies on from the collaborators that are not
  among the sources. The InsurerSelector returns "an ordered set of n distinct server
  indices" (\<open>selector_contract\<close>). The MessageAuthenticator encodes every message, and
  what a server signed decodes under its roster key to the payload that was signed; a
  signed message is never empty (\<open>codec_contract\<close>). A deal built for n insurers
  serialises, and "round-tripping a deal through serialize, deserialize,
  response-production yields the same response as operating on the original in-memory
  deal" (\<open>deal_contract\<close>). The insurer whose public key is the k-th key of a deal
  can produce and serialise the response for share k (\<open>share_contract\<close>).
\<close>

definition selector_contract :: "('w, 'ck, 'pt, 'sk, 'kp, 'sc, 'dl, 'rp) env \<Rightarrow> 'pt SchnorrPublicKey list \<Rightarrow> bool" where
  "selector_contract E pub \<longleftrightarrow>
     (\<forall>rc rs. length (pickInsurers E pub rc rs) = thresN
        \<and> distinct (pickInsurers E pub rc rs)
        \<and> list_all (\<lambda>j. 0 \<le> j \<and> j < int (length pub)) (pickInsurers E pub rc rs))"

definition codec_contract :: "('w, 'ck, 'pt, 'sk, 'kp, 'sc, 'dl, 'rp) env \<Rightarrow> 'sk \<Rightarrow> 'pt SchnorrPublicKey \<Rightarrow> bool" where
  "codec_contract E sk pk \<longleftrightarrow>
     (\<forall>ob w. \<exists>b w'. sigEncode E sk ob w = (Inr b, w'))
     \<and> (\<forall>r2 w b w'. sigEncode E sk (ObjR2 r2) w = (Inr b, w')
           \<longrightarrow> b \<noteq> [] \<and> sigDecodeR2 E pk b = Inr r2)"

definition deal_contract :: "('w, 'ck, 'pt, 'sk, 'kp, 'sc, 'dl, 'rp) env \<Rightarrow> bool" where
  "deal_contract E \<longleftrightarrow>
     (\<forall>sec kp keys. length keys = thresN \<longrightarrow>
        (\<exists>b d. MarshalPromise E (ConstructPromise E sec kp thresT thresR keys) = Inr b
           \<and> UnmarshalPromise E thresT thresR thresN b = Inr d
           \<and> (\<forall>k kp'. ProduceResponse E d k kp'
                = ProduceResponse E (ConstructPromise E sec kp thresT thresR keys) k kp')))"

definition share_contract :: "('w, 'ck, 'pt, 'sk, 'kp, 'sc, 'dl, 'rp) env \<Rightarrow> 'kp \<Rightarrow> 'pt \<Rightarrow> bool" where
  "share_contract E own pt \<longleftrightarrow>
     (\<forall>sec kp keys k. k < length keys \<and> keys ! k = pt \<longrightarrow>
        (\<exists>sh rp b. ProduceResponse E (ConstructPromise E sec kp thresT thresR keys) k own = Inr (sh, rp)
           \<and> MarshalResponse E rp = Inr b))"

definition collaborators :: "('w, 'ck, 'pt, 'sk, 'kp, 'sc, 'dl, 'rp) env \<Rightarrow> ('ck, 'pt, 'sk, 'kp) Server list \<Rightarrow>
    'pt SchnorrPublicKey list \<Rightarrow> bool" where
  "collaborators E ss pub \<longleftrightarrow>
     selector_contract E pub \<and> deal_contract E
     \<and> (\<forall>j<length ss. codec_contract E (srvsec (ss ! j)) (pub ! j)
            \<and> share_contract E (keypair (ss ! j)) (Point (pub ! j)))"

text \<open>
  \<open>encoded\<close> says that every message handed to the connection is an encoding, under
  the server's key, of the value that was sent. It relates the R2 bytes a server sent to
  what the other servers decode.
\<close>

definition encoded :: "('w, 'ck, 'pt, 'sk, 'kp, 'sc, 'dl, 'rp) env \<Rightarrow> ('ck, 'pt, 'sk, 'kp) Server \<Rightarrow>
    'sc event list \<Rightarrow> bool" where
  "encoded E s evs \<longleftrightarrow>
     (\<forall>ob b r. Send ob b r \<in> set evs \<longrightarrow> (\<exists>w w'. sigEncode E (srvsec s) ob w = (Inr b, w')))"

subsection \<open>A small concrete session\<close>

text \<open>
  A toy instance of the collaborators, for evaluating \<open>serve\<close> on concrete sessions: the
  world is the queue of messages the client will send; the hash adds the bytes up;
  the codec is transparent (an R2 is its seed byte followed by the deal, an I3 or I4 is a
  sequence of length-prefixed slots); the selection rotates through the roster, starting
  at the sum of the two seeds.
\<close>

fun unframe :: "bytes \<Rightarrow> bytes list" where
  "unframe [] = []"
| "unframe (n # bs) = take (unat n) bs # unframe (drop (unat n) bs)"

definition toy_env :: "(bytes list, unit, nat, unit, unit, nat, bytes, bytes) env" where
  "toy_env = \<lparr>
     connRecv = (\<lambda>w. case w of [] \<Rightarrow> (Inl ''EOF'', []) | m # ms \<Rightarrow> (Inr m, ms)),
     connSend = (\<lambda>m w. (None, w)),
     XORKeyStream = (\<lambda>src w. (map (\<lambda>b. b XOR 4) src, w)),
     suiteSum = (\<lambda>bs. [fold (+) bs 7]),
     Gen = (\<lambda>w. ((), w)),
     pickInsurers = (\<lambda>pub rc rs. map (\<lambda>k. int ((unat (fold (+) (rc @ rs) 0) + k) mod length pub)) [0..<thresN]),
     ConstructPromise = (\<lambda>sec kp t r keys. map of_nat keys),
     MarshalPromise = (\<lambda>d. Inr d),
     UnmarshalPromise = (\<lambda>t r n b. if b = [255] then Inl ''bad deal'' else Inr b),
     ProduceResponse = (\<lambda>d k kp. Inr (unat (hd d) + k, d @ [of_nat k])),
     MarshalResponse = (\<lambda>r. Inr r),
     sigEncode = (\<lambda>sk ob w. (Inr (case ob of ObjR1 (R1 h) \<Rightarrow> h | ObjR2 (R2 rs d) \<Rightarrow> rs @ d
                                        | ObjR3 r3 \<Rightarrow> [3] | ObjR4 r4 \<Rightarrow> [4]), w)),
     sigDecodeI1 = (\<lambda>ck m. Inr (I1 m)),
     sigDecodeI2 = (\<lambda>ck m. Inr (I2 m)),
     sigDecodeI3 = (\<lambda>ck m. Inr (I3 (unframe m))),
     sigDecodeI4 = (\<lambda>ck m. Inr (I4 (unframe m))),
     sigDecodeR2 = (\<lambda>pk m. if hd m = 254 then Inl ''bad signature'' else Inr (R2 (take 1 m) (drop 1 m)))
   \<rparr>"

definition toy_server :: "nat \<Rightarrow> int \<Rightarrow> (unit, nat, unit, unit) Server" where
  "toy_server n me = \<lparr>keysize = 1, keypair = (), clipub = (),
     srvpub = map (\<lambda>i. SchnorrPublicKey (10 + i)) [0..<n], srvsec = (), self = me\<rparr>"

definition toy_session :: "bytes list \<Rightarrow> (bytes list, nat) session" where
  "toy_session msgs = \<lparr>world = msgs, trace = []\<rparr>"

definition honest_msgs :: "bytes list" where
  "honest_msgs = [[8], [1], [3,8,9,9, 4,4,12,10,11, 2,16,7], [3,8,9,9, 4,4,12,10,11, 0]]"

definition honest_trace :: "nat event list" where
  "honest_trace =
     [Recv (Inr [8]), Send (ObjR1 (R1 [11])) [11] None, Recv (Inr [1]),
      Send (ObjR2 (R2 [4] [12, 10, 11])) [4, 12, 10, 11] None,
      Recv (Inr [3, 8, 9, 9, 4, 4, 12, 10, 11, 2, 16, 7]),
      Send (ObjR3 (R3 [R3Resp 0 1 [9, 9, 1], R3Resp 1 2 [12, 10, 11, 2], R3Resp 2 2 [7, 2]])) [3] None,
      Recv (Inr [3, 8, 9, 9, 4, 4, 12, 10, 11, 0]),
      Send (ObjR4 (R4 [R4Share 0 1 10, R4Share 1 2 14, R4Share 2 2 9])) [4] None]"

definition mismatch_msgs :: "bytes list" where
  "mismatch_msgs = [[8], [2]]"

definition tampered_msgs :: "bytes list" where
  "tampered_msgs = [[8], [1], [3,8,9,9, 4,4,12,10,11, 2,16,7], [3,8,9,8, 4,4,12,10,11, 0]]"

definition oversize_msgs :: "bytes list" where
  "oversize_msgs = [[8], [1], [3,8,9,9, 4,4,12,10,11, 2,16,7], [3,8,9,8, 4,4,12,10,11, 0, 0]]"

definition bad_deal_msgs :: "bytes list" where
  "bad_deal_msgs = [[8], [1], [0, 4,4,12,10,11, 2,16,255]]"

subsection \<open>Concrete sessions of several servers\<close>

text \<open>
  A second instance of the collaborators, with a codec that signs: a message is
  prefixed with the key of its sender and decodes only under that key; an R2 is framed
  with the length of its seed in unary; a deal lists the keys of its insurers, and the
  holder of the k-th key, and nobody else, can respond for share k. The state of the
  cipher is part of the world, so the servers draw different seeds. Server \<open>i\<close> has the
  key \<open>10 + i\<close>. \<open>r2s3\<close> are the R2 messages that three servers with cipher states 8, 4
  and 16 send for the client seed \<open>[1]\<close>, \<open>r2s4\<close> those of four servers with cipher states
  4, 8, 12 and 16; \<open>msgs3\<close> and \<open>msgs4\<close> are the messages of a client that relays them.
\<close>

definition frame_R2 :: "R2 \<Rightarrow> bytes" where
  "frame_R2 r = replicate (length (Rs r)) 1 @ [0] @ Rs r @ Deal r"

definition unframe_R2 :: "bytes \<Rightarrow> R2" where
  "unframe_R2 m =
     (let n = length (takeWhile (\<lambda>b. b = 1) m); body = drop (n + 1) m
      in R2 (take n body) (drop n body))"

definition net_env :: "(bytes list \<times> 8 word, unit, nat, nat, nat, nat, bytes, bytes) env" where
  "net_env = \<lparr>
     connRecv = (\<lambda>(q, c). case q of [] \<Rightarrow> (Inl ''EOF'', ([], c)) | m # ms \<Rightarrow> (Inr m, (ms, c))),
     connSend = (\<lambda>m w. (None, w)),
     XORKeyStream = (\<lambda>src (q, c). (map (\<lambda>b. b XOR c) src, (q, c + 1))),
     suiteSum = (\<lambda>bs. [fold (+) bs 7]),
     Gen = (\<lambda>w. (0, w)),
     pickInsurers = (\<lambda>pub rc rs. map (\<lambda>k. int ((unat (fold (+) (rc @ rs) 0) + k) mod length pub)) [0..<thresN]),
     ConstructPromise = (\<lambda>sec kp t r keys. map of_nat keys),
     MarshalPromise = (\<lambda>d. Inr d),
     UnmarshalPromise = (\<lambda>t r n b. if length b = n then Inr b else Inl ''bad deal''),
     ProduceResponse = (\<lambda>d k kp. if k < length d \<and> d ! k = of_nat kp then Inr (kp + k, [of_nat k])
                                  else Inl ''not the holder of this share''),
     MarshalResponse = (\<lambda>r. Inr r),
     sigEncode = (\<lambda>sk ob w. (Inr (of_nat sk # (case ob of ObjR1 (R1 h) \<Rightarrow> h | ObjR2 r2 \<Rightarrow> frame_R2 r2
                                        | ObjR3 r3 \<Rightarrow> [3] | ObjR4 r4 \<Rightarrow> [4])), w)),
     sigDecodeI1 = (\<lambda>ck m. Inr (I1 m)),
     sigDecodeI2 = (\<lambda>ck m. Inr (I2 m)),
     sigDecodeI3 = (\<lambda>ck m. Inr (I3 (unframe m))),
     sigDecodeI4 = (\<lambda>ck m. Inr (I4 (unframe m))),
     sigDecodeR2 = (\<lambda>pk m. case m of [] \<Rightarrow> Inl ''bad signature''
                           | k # body \<Rightarrow> if k = of_nat (Point pk) then Inr (unframe_R2 body)
                                         else Inl ''bad signature'')
   \<rparr>"

definition net_server :: "nat \<Rightarrow> nat \<Rightarrow> (unit, nat, nat, nat) Server" where
  "net_server n i = \<lparr>keysize = 1, keypair = 10 + i, clipub = (),
     srvpub = map (\<lambda>j. SchnorrPublicKey (10 + j)) [0..<n], srvsec = 10 + i, self = int i\<rparr>"

definition net_session :: "8 word \<Rightarrow> bytes list \<Rightarrow> (bytes list \<times> 8 word, nat) session" where
  "net_session c msgs = \<lparr>world = (msgs, c), trace = []\<rparr>"

definition frame :: "bytes list \<Rightarrow> bytes" where
  "frame bs = concat (map (\<lambda>b. of_nat (length b) # b) bs)"

definition r2s3 :: "bytes list" where
  "r2s3 = [[10,1,0,8,10,11,12], [11,1,0,4,12,10,11], [12,1,0,16,12,10,11]]"

definition msgs3 :: "bytes list" where
  "msgs3 = [[8], [1], frame r2s3, frame [r2s3 ! 0, r2s3 ! 1, []]]"

definition r2s4 :: "bytes list" where
  "r2s4 = [[10,1,0,4,11,12,13], [11,1,0,8,11,12,13], [12,1,0,12,11,12,13], [13,1,0,16,11,12,13]]"

definition msgs4 :: "bytes list" where
  "msgs4 = [[8], [1], frame r2s4, frame r2s4]"

definition net_servers :: "nat \<Rightarrow> (unit, nat, nat, nat) Server list" where
  "net_servers n = map (net_server n) [0..<n]"

definition net_roster :: "nat \<Rightarrow> nat SchnorrPublicKey list" where
  "net_roster n = map (\<lambda>j. SchnorrPublicKey (10 + j)) [0..<n]"

definition sessions3 :: "(bytes list \<times> 8 word, nat) session list" where
  "sessions3 = map (\<lambda>c. net_session c msgs3) [8, 4, 16]"

definition sessions4 :: "(bytes list \<times> 8 word, nat) session list" where
  "sessions4 = map (\<lambda>c. net_session c msgs4) [4, 8, 12, 16]"

section \<open>Properties of the Merkle proof utility\<close>

lemma hashNode_swap: "hashNode c buf left right = hashNode c buf right left"
proof -
  consider "bytes_of left < bytes_of right" | "bytes_of left = bytes_of right"
    | "bytes_of right < bytes_of left"
    using less_linear by blast
  then show ?thesis
    by cases (auto simp: hashNode_def Compare_def Let_def)
qed

lemma Calc_loop_append: "n \<le> length p \<Longrightarrow> Calc_loop n (p @ q) st = Calc_loop n p st"
  by (induction n arbitrary: st) (auto simp: nth_append split: prod.splits)

lemma Calc_snoc:
  "Calc (p @ [h]) f leaf =
     (case hashNode \<lparr>newHash = f, hash = None\<rparr> None leaf h of (leaf', c') \<Rightarrow>
        Calc_loop (length p) p (c', leaf', leaf'))"
  by (simp add: Calc_def reslice0_def Calc_loop_append split: prod.splits)

text \<open>
  Claim C9. The bounds checks of \<open>MerkleGet\<close> compare \<open>beg + 256\<close> and \<open>Ofs + Len\<close>, which
  wrap around. With a non-negative pointer at the top of the \<open>int\<close> range the sum is
  negative, the check passes, and the slice expression panics: the call neither returns a
  slice nor returns an error. The same happens for a non-negative \<open>Ofs\<close> and \<open>Len\<close>
  whose sum wraps. Both hold for every root blob and every \<open>HashGet\<close>.
\<close>

theorem MerkleGet_overflow_panics:
  "MerkleGet root \<lparr>Ptr = [0x7FFFFFFFFFFFFFFF], Ofs = 0, Len = 0\<rparr> ctx = Panic ''slice bounds out of range''
   \<and> MerkleGet root \<lparr>Ptr = [], Ofs = 0x7FFFFFFFFFFFFFFF, Len = 1\<rparr> ctx = Panic ''slice bounds out of range''"
  by (simp add: MerkleGet_def slice_def)

text \<open>
  Where the sums do not wrap (non-negative pointers below the top 256 values of the
  \<open>int\<close> range, a non-negative \<open>Ofs\<close> and \<open>Len\<close> whose sum is in range), the guards are
  sound: \<open>MerkleGet\<close> returns a slice or an error and never panics.
\<close>

lemma sint_add_in_range:
  fixes a b :: go_int
  assumes "0 \<le> sint a" "0 \<le> sint b" "sint a + sint b < 2 ^ 63"
  shows "sint (a + b) = sint a + sint b"
proof -
  have "sint (a + b) = signed_take_bit 63 (sint a + sint b)"
    by (simp add: sint_word_ariths)
  also have "\<dots> = sint a + sint b"
    using assms by (intro signed_take_bit_int_eq_self) simp_all
  finally show ?thesis .
qed

lemma follow_in_range:
  assumes "list_all (\<lambda>p. 0 \<le> sint p \<and> sint p < 2 ^ 63 - 256) ps"
  shows "follow ctx blob ps \<noteq> Panic m"
  using assms
proof (induction ps arbitrary: blob)
  case Nil
  then show ?case by simp
next
  case (Cons p ps)
  have s: "sint (p + 256) = sint p + 256"
    using Cons.prems sint_add_in_range [of p 256] by simp
  show ?case
    using Cons s by (auto simp: Let_def slice_def split: sum.splits)
qed

lemma MerkleGet_in_range:
  assumes "list_all (\<lambda>p. 0 \<le> sint p \<and> sint p < 2 ^ 63 - 256) (Ptr path)"
    and "0 \<le> sint (Ofs path)" "0 \<le> sint (Len path)" "sint (Ofs path) + sint (Len path) < 2 ^ 63"
  shows "MerkleGet root path ctx \<noteq> Panic m"
proof -
  have s: "sint (Ofs path + Len path) = sint (Ofs path) + sint (Len path)"
    using assms by (intro sint_add_in_range) simp_all
  show ?thesis
    using follow_in_range [OF assms(1), of ctx root] s assms(2,3)
    by (auto simp: MerkleGet_def Let_def slice_def split: result.splits)
qed

subsection \<open>hashNode and Calc on byte strings\<close>

lemma nodeb_commute: "nodeb f x y = nodeb f y x"
proof -
  consider "x < y" | "x = y" | "y < x" using less_linear by blast
  then show ?thesis by cases (auto simp: nodeb_def)
qed

lemma hashNode_fst:
  "fst (hashNode c buf l r) = append_go buf (nodeb (newHash c) (bytes_of l) (bytes_of r))"
  by (auto simp: hashNode_def Compare_def nodeb_def Let_def Sum_def Write_def Reset_def split: option.splits)

lemma hashNode_newHash: "newHash (snd (hashNode c buf l r)) = newHash c"
  by (simp add: hashNode_def Let_def split: prod.splits)

lemma bytes_of_append_go: "bytes_of (append_go b xs) = bytes_of b @ xs"
  by (simp add: bytes_of_def append_go_def split: option.splits)

lemma bytes_of_reslice0: "bytes_of (reslice0 b) = []"
  by (simp add: bytes_of_def reslice0_def split: option.splits)

lemma bytes_of_parent: "bytes_of (parent f l r) = nodeb f (bytes_of l) (bytes_of r)"
  by (simp add: parent_def bytes_of_append_go) (simp add: bytes_of_def)

lemma Calc_loop_bytes:
  "n \<le> length p \<Longrightarrow> newHash c = f \<Longrightarrow>
     bytes_of (Calc_loop n p (c, buf, leaf)) =
       fold (\<lambda>h x. nodeb f x (bytes_of h)) (rev (take n p)) (bytes_of leaf)"
proof (induction n arbitrary: c buf leaf)
  case 0
  then show ?case by simp
next
  case (Suc n)
  obtain l' c' where hn: "hashNode c (reslice0 buf) leaf (p ! n) = (l', c')" by (cases "hashNode c (reslice0 buf) leaf (p ! n)")
  have l': "bytes_of l' = nodeb f (bytes_of leaf) (bytes_of (p ! n))"
    using hashNode_fst [of c "reslice0 buf" leaf "p ! n"] hn Suc.prems
    by (simp add: bytes_of_append_go bytes_of_reslice0)
  have c': "newHash c' = f" using hashNode_newHash [of c "reslice0 buf" leaf "p ! n"] hn Suc.prems by simp
  have tk: "take (Suc n) p = take n p @ [p ! n]" using Suc.prems by (simp add: take_Suc_conv_app_nth)
  show ?case
    using Suc.IH [of c' l' l'] Suc.prems hn l' c' tk by simp
qed

lemma Check_bytes:
  "Check p f root leaf \<longleftrightarrow>
     fold (\<lambda>h x. nodeb f x (bytes_of h)) (rev p) (bytes_of leaf) = bytes_of root"
  using Calc_loop_bytes [of "length p" p "\<lparr>newHash = f, hash = None\<rparr>" f None leaf]
  by (auto simp: Check_def Calc_def ConstantTimeCompare_def Let_def)

lemma Calc_bytes:
  "bytes_of (Calc p f leaf) = fold (\<lambda>h x. nodeb f x (bytes_of h)) (rev p) (bytes_of leaf)"
  using Calc_loop_bytes [of "length p" p "\<lparr>newHash = f, hash = None\<rparr>" f None leaf]
  by (simp add: Calc_def)

text \<open>
  Claim C10. \<open>hashNode\<close> gives the same result (and leaves the same context) when its
  two children are exchanged. Hence \<open>Calc\<close> and \<open>Check\<close> do not depend on the side on
  which the path goes through a sibling pair. At the lowest level: \<open>Calc\<close> from one leaf
  with the other as the lowest proof entry equals \<open>Calc\<close> from the other leaf with the
  first as the lowest entry. At any level: where the proof \<open>p @ h # q\<close> reaches the pair
  made of the value computed from \<open>q\<close> and the sibling \<open>h\<close>, starting from \<open>h\<close> with that value
  as its sibling gives the same bytes, and \<open>Check\<close> gives the same answer.
\<close>

theorem hashNode_commutes:
  "hashNode c buf left right = hashNode c buf right left
   \<and> Calc (p @ [right]) f left = Calc (p @ [left]) f right
   \<and> Check (p @ [right]) f root left = Check (p @ [left]) f root right
   \<and> bytes_of (Calc (p @ h # q) f leaf) = bytes_of (Calc (p @ [Calc q f leaf]) f h)
   \<and> Check (p @ h # q) f root leaf = Check (p @ [Calc q f leaf]) f root h"
proof -
  have calc: "Calc (p @ [right]) f left = Calc (p @ [left]) f right"
    by (simp only: Calc_snoc hashNode_swap [of _ _ left right])
  have level: "bytes_of (Calc (p @ h # q) f leaf) = bytes_of (Calc (p @ [Calc q f leaf]) f h)"
    by (simp add: Calc_bytes nodeb_commute [of f "bytes_of h"])
  have chk: "Check (p @ h # q) f root leaf = Check (p @ [Calc q f leaf]) f root h"
    using level by (simp add: Check_def ConstantTimeCompare_def Let_def)
  show ?thesis
    using calc level chk by (simp add: Check_def hashNode_swap [of c buf left right])
qed

subsection \<open>The loops of ProofTree\<close>

lemma node_step_fold:
  "n \<le> length t \<Longrightarrow> newHash c = f \<Longrightarrow>
     fst (fold (node_step tprev) [0..<n] (t, c)) =
         map (\<lambda>i. parent f (tprev ! (i * 2)) (tprev ! (i * 2 + 1))) [0..<n] @ drop n t
     \<and> newHash (snd (fold (node_step tprev) [0..<n] (t, c))) = f"
proof (induction n)
  case 0
  then show ?case by simp
next
  case (Suc n)
  obtain t' c' where fo: "fold (node_step tprev) [0..<n] (t, c) = (t', c')"
    by (cases "fold (node_step tprev) [0..<n] (t, c)")
  from Suc fo have t': "t' = map (\<lambda>i. parent f (tprev ! (i * 2)) (tprev ! (i * 2 + 1))) [0..<n] @ drop n t"
    and c': "newHash c' = f" by simp_all
  obtain s c'' where hn: "hashNode c' None (tprev ! (n * 2)) (tprev ! (n * 2 + 1)) = (s, c'')"
    by (cases "hashNode c' None (tprev ! (n * 2)) (tprev ! (n * 2 + 1))")
  have s: "s = parent f (tprev ! (n * 2)) (tprev ! (n * 2 + 1))"
    using hashNode_fst [of c' None "tprev ! (n * 2)" "tprev ! (n * 2 + 1)"] hn c'
    by (simp add: parent_def)
  have c'': "newHash c'' = f"
    using hashNode_newHash [of c' None "tprev ! (n * 2)" "tprev ! (n * 2 + 1)"] hn c' by simp
  have dr: "drop n t = t ! n # drop (Suc n) t"
    using Suc.prems by (simp add: Cons_nth_drop_Suc)
  have upd: "t'[n := s] = map (\<lambda>i. parent f (tprev ! (i * 2)) (tprev ! (i * 2 + 1))) [0..<n] @ s # drop (Suc n) t"
    unfolding t' dr by (simp add: list_update_append)
  have "fold (node_step tprev) [0..<Suc n] (t, c) = node_step tprev n (t', c')"
    using fo by simp
  also have "\<dots> = (t'[n := s], c'')" using hn by (simp add: node_step_def)
  finally show ?case using upd s c'' by simp
qed

lemma next_level_even:
  assumes "even (length tprev)" "newHash c = f"
  shows "fst (next_level c tprev) = up f tprev" "newHash (snd (next_level c tprev)) = f"
proof -
  obtain m where m: "length tprev = 2 * m" using assms(1) by (auto elim: evenE)
  have a: "drop_bit 1 (length tprev + 1) = m" "drop_bit 1 (length tprev) = m"
    using m by (simp_all add: drop_bit_eq_div)
  have "fst (fold (node_step tprev) [0..<m] (replicate m None, c)) =
         map (\<lambda>i. parent f (tprev ! (i * 2)) (tprev ! (i * 2 + 1))) [0..<m] @ drop m (replicate m None)"
    and nh: "newHash (snd (fold (node_step tprev) [0..<m] (replicate m None, c))) = f"
    using node_step_fold [of m "replicate m None" c f tprev] assms(2) by simp_all
  then show "fst (next_level c tprev) = up f tprev"
    using a m by (simp add: next_level_def up_def Let_def)
  show "newHash (snd (next_level c tprev)) = f"
    using nh a by (simp add: next_level_def Let_def)
qed

lemma length_up: "length (up f xs) = length xs div 2"
  by (simp add: up_def)

lemma length_up_pow: "length xs = 2 ^ n \<Longrightarrow> k \<le> n \<Longrightarrow> length ((up f ^^ k) xs) = 2 ^ (n - k)"
proof (induction k)
  case 0
  then show ?case by simp
next
  case (Suc k)
  then have "length ((up f ^^ k) xs) = 2 ^ (n - k)" by simp
  moreover have "(2::nat) ^ (n - k) div 2 = 2 ^ (n - Suc k)"
    using Suc.prems by (metis Suc_diff_Suc Suc_le_lessD nonzero_mult_div_cancel_left power_Suc zero_neq_numeral)
  ultimately show ?case by (simp add: length_up)
qed

lemma tree_loop_char:
  "length tprev = 2 ^ d \<Longrightarrow> d < length tree \<Longrightarrow> newHash c = f \<Longrightarrow>
     (case tree_loop d (tree, c, tprev) of (tree', c', tfinal) \<Rightarrow>
        length tree' = length tree
        \<and> (\<forall>L<d. tree' ! L = (up f ^^ (d - L)) tprev)
        \<and> (\<forall>L\<ge>d. tree' ! L = tree ! L)
        \<and> tfinal = (up f ^^ d) tprev)"
proof (induction d arbitrary: tree c tprev)
  case 0
  then show ?case by simp
next
  case (Suc d)
  have ev: "even (length tprev)" using Suc.prems(1) by simp
  obtain tnext c1 where nl: "next_level c tprev = (tnext, c1)" by (cases "next_level c tprev")
  have tnext: "tnext = up f tprev" and c1: "newHash c1 = f"
    using next_level_even [OF ev Suc.prems(3)] nl by simp_all
  have len: "length tnext = 2 ^ d" using tnext Suc.prems(1) by (simp add: length_up)
  have dl: "d < length (tree[d := tnext])" using Suc.prems(2) by simp
  obtain tree' c' tfinal where tl: "tree_loop d (tree[d := tnext], c1, tnext) = (tree', c', tfinal)"
    by (cases "tree_loop d (tree[d := tnext], c1, tnext)")
  from Suc.IH [OF len dl c1] tl have
    1: "length tree' = length tree"
    and 2: "\<forall>L<d. tree' ! L = (up f ^^ (d - L)) tnext"
    and 3: "\<forall>L\<ge>d. tree' ! L = (tree[d := tnext]) ! L"
    and 4: "tfinal = (up f ^^ d) tnext" by simp_all
  have sw: "(up f ^^ k) (up f tprev) = (up f ^^ Suc k) tprev" for k
    by (simp add: funpow_swap1)
  have a: "tree' ! L = (up f ^^ (Suc d - L)) tprev" if "L < Suc d" for L
  proof (cases "L < d")
    case True
    then show ?thesis using 2 tnext sw [of "d - L"] by (simp add: Suc_diff_le)
  next
    case False
    then have "L = d" using that by simp
    then show ?thesis using 3 tnext Suc.prems(2) by simp
  qed
  have b: "tree' ! L = tree ! L" if "L \<ge> Suc d" for L
    using 3 that by simp
  have "tree_loop (Suc d) (tree, c, tprev) = (tree', c', tfinal)"
    using nl tl by simp
  then show ?case using 1 a b 4 tnext sw [of d] by simp
qed

lemma sibling_cases: "sibling j = (if odd j then j - 1 else j + 1)"
  by (simp add: sibling_def and_one_eq mod2_eq_if)

lemma sibling_lt: "even n \<Longrightarrow> j < n \<Longrightarrow> sibling j < n"
  by (auto simp: sibling_cases elim!: evenE oddE)

lemma up_nth: "j < length xs div 2 \<Longrightarrow> up f xs ! j = parent f (xs ! (j * 2)) (xs ! (j * 2 + 1))"
  by (simp add: up_def)

lemma sibling_parent:
  assumes "even (length xs)" "j < length xs"
  shows "nodeb f (bytes_of (xs ! j)) (bytes_of (xs ! sibling j)) = bytes_of (up f xs ! (j div 2))"
proof -
  have j2: "j div 2 < length xs div 2" using assms by (auto elim!: evenE)
  show ?thesis
  proof (cases "odd j")
    case True
    then obtain k where k: "j = 2 * k + 1" by (auto elim: oddE)
    then have "sibling j = k * 2" "j div 2 = k" "j = k * 2 + 1" by (simp_all add: sibling_cases)
    then show ?thesis
      using up_nth [OF j2, of f] by (simp add: bytes_of_parent nodeb_commute)
  next
    case False
    then obtain k where k: "j = 2 * k" by (auto elim: evenE)
    then have "sibling j = k * 2 + 1" "j div 2 = k" "j = k * 2" by (simp_all add: sibling_cases)
    then show ?thesis
      using up_nth [OF j2, of f] by (simp add: bytes_of_parent)
  qed
qed

lemma proof_loop_char:
  assumes "\<And>e. e < d \<Longrightarrow> depth - e < length tree
              \<and> sibling (drop_bit e i) < length (tree ! (depth - e))"
  shows "proof_loop d tree depth i p =
           Some (p @ filter (\<lambda>h. h \<noteq> None)
                  (map (\<lambda>e. tree ! (depth - e) ! sibling (drop_bit e i)) (rev [0..<d])))"
  using assms
proof (induction d arbitrary: p)
  case 0
  then show ?case by simp
next
  case (Suc d)
  have in_range: "depth - d < length tree \<and> sibling (drop_bit d i) < length (tree ! (depth - d))"
    using Suc.prems [of d] by simp
  have IH: "proof_loop d tree depth i q =
           Some (q @ filter (\<lambda>h. h \<noteq> None)
                  (map (\<lambda>e. tree ! (depth - e) ! sibling (drop_bit e i)) (rev [0..<d])))" for q
    using Suc.IH [of q] Suc.prems by simp
  show ?case
    using in_range by (simp add: IH Let_def)
qed

lemma proofs_loop_char:
  assumes "\<And>i. i0 \<le> i \<Longrightarrow> i < i0 + n \<Longrightarrow> proof_loop depth tree depth i [] = Some (P i)"
  shows "\<exists>ps. proofs_loop n tree depth i0 = Some ps \<and> length ps = n \<and> (\<forall>j<n. ps ! j = P (i0 + j))"
  using assms
proof (induction n arbitrary: i0)
  case 0
  then show ?case by simp
next
  case (Suc n)
  have a: "proof_loop depth tree depth i0 [] = Some (P i0)" using Suc.prems [of i0] by simp
  obtain ps where ps: "proofs_loop n tree depth (i0 + 1) = Some ps" "length ps = n"
      "\<forall>j<n. ps ! j = P (i0 + 1 + j)"
    using Suc.IH [of "i0 + 1"] Suc.prems by auto
  have "(P i0 # ps) ! j = P (i0 + j)" if "j < Suc n" for j
    using that ps(3) by (cases j) simp_all
  then show ?case using a ps by simp
qed

lemma depth_loop_terminates:
  "0 < n \<Longrightarrow> \<exists>d'. depth_loop n nl d = Some d' \<and> nl \<le> n * 2 ^ (d' - d) \<and> d \<le> d'"
proof (induction "nl - n" arbitrary: n d rule: less_induct)
  case less
  show ?case
  proof (cases "n < nl")
    case False
    then show ?thesis by (subst depth_loop.simps) (auto intro: exI [of _ d])
  next
    case True
    have "nl - push_bit 1 n < nl - n" using True less.prems by (simp add: push_bit_eq_mult)
    moreover have "0 < push_bit 1 n" using less.prems by (simp add: push_bit_eq_mult)
    ultimately obtain d' where d': "depth_loop (push_bit 1 n) nl (d + 1) = Some d'"
      "nl \<le> push_bit 1 n * 2 ^ (d' - (d + 1))" "d + 1 \<le> d'"
      using less.hyps [of "push_bit 1 n" "d + 1"] by blast
    have "push_bit 1 n * 2 ^ (d' - (d + 1)) = n * 2 ^ (d' - d)"
    proof -
      have e: "d' - d = Suc (d' - (d + 1))" using d'(3) by simp
      have "push_bit 1 n * 2 ^ (d' - (d + 1)) = n * (2 * 2 ^ (d' - (d + 1)))"
        by (simp add: push_bit_eq_mult)
      also have "\<dots> = n * 2 ^ Suc (d' - (d + 1))" by (simp only: power_Suc)
      finally show ?thesis by (simp only: e)
    qed
    then have "nl \<le> n * 2 ^ (d' - d)" using d'(2) by metis
    moreover have "depth_loop n nl d = Some d'"
      using True d'(1) by (subst depth_loop.simps) simp
    ultimately show ?thesis using d'(3) by auto
  qed
qed

lemma up_sizes:
  "\<forall>x. length (digest f x) = Size f \<Longrightarrow> x \<in> set (up f xs) \<Longrightarrow> length (bytes_of x) = Size f"
  by (auto simp: up_def bytes_of_parent nodeb_def)

lemma levels_sizes:
  assumes "\<forall>x. length (digest f x) = Size f" "\<forall>x\<in>set xs. length (bytes_of x) = Size f"
  shows "\<forall>x\<in>set ((up f ^^ e) xs). length (bytes_of x) = Size f"
proof (induction e)
  case 0
  then show ?case using assms(2) by simp
next
  case (Suc e)
  then show ?case using up_sizes [OF assms(1)] by simp
qed

lemma fold_nodeb_empty:
  "\<forall>x. length (digest f x) = 0 \<Longrightarrow> x0 = [] \<Longrightarrow> fold (\<lambda>h x. nodeb f x (bytes_of h)) hs x0 = []"
  by (induction hs arbitrary: x0) (auto simp: nodeb_def)

lemma nonempty_not_nil: "length (bytes_of x) = n \<Longrightarrow> 0 < n \<Longrightarrow> x \<noteq> None"
  by (cases x) (auto simp: bytes_of_def)

lemma div_pow_less:
  assumes "i < 2 ^ depth" "d \<le> depth"
  shows "i div 2 ^ d < (2::nat) ^ (depth - d)"
proof -
  have "(2::nat) ^ depth = 2 ^ (depth - d) * 2 ^ d"
    using assms(2) by (simp add: power_add [symmetric])
  then show ?thesis using assms(1) by (simp add: less_mult_imp_div_less)
qed

lemma path_fold:
  assumes len: "length xs = 2 ^ depth" and i: "i < 2 ^ depth"
  shows "d \<le> depth \<Longrightarrow>
     fold (\<lambda>h x. nodeb f x (bytes_of h))
        (map (\<lambda>e. (up f ^^ e) xs ! sibling (i div 2 ^ e)) [0..<d]) (bytes_of (xs ! i))
       = bytes_of ((up f ^^ d) xs ! (i div 2 ^ d))"
proof (induction d)
  case 0
  then show ?case by simp
next
  case (Suc d)
  let ?X = "(up f ^^ d) xs"
  have lenX: "length ?X = 2 ^ (depth - d)" using length_up_pow [OF len, of d f] Suc.prems by simp
  have "depth - d = Suc (depth - Suc d)" using Suc.prems by simp
  then have ev: "even (length ?X)" using lenX by simp
  have j: "i div 2 ^ d < length ?X" using div_pow_less [OF i, of d] Suc.prems lenX by simp
  have step: "nodeb f (bytes_of (?X ! (i div 2 ^ d))) (bytes_of (?X ! sibling (i div 2 ^ d)))
      = bytes_of (up f ?X ! (i div 2 ^ d div 2))"
    by (rule sibling_parent [OF ev j])
  have dd: "i div 2 ^ d div 2 = i div 2 ^ Suc d" by (simp only: power_Suc2 div_mult2_eq)
  have IH: "fold (\<lambda>h x. nodeb f x (bytes_of h))
        (map (\<lambda>e. (up f ^^ e) xs ! sibling (i div 2 ^ e)) [0..<d]) (bytes_of (xs ! i))
       = bytes_of (?X ! (i div 2 ^ d))"
    using Suc by simp
  show ?case
    using IH step dd by simp
qed

lemma toy_tree:
  "ProofTree toy_hash toy_leaves =
     Some (Some [32, 4],
       [[Some [12, 4], Some [3, 4]], [Some [12, 4], Some [1, 2]], [Some [11, 4], Some [0, 0]]])"
  by code_simp

text \<open>
  Claim C8 (Merkle round trip). For a hash whose digests all have the size it reports,
  and a non-empty list of leaves of that size, \<open>ProofTree\<close> returns (it neither panics
  nor runs forever) a root and as many proofs as there are leaves, and every proof
  checks against the root and its leaf. The number of leaves need not be a power of two:
  the zero leaves that \<open>ProofTree\<close> appends are part of the tree. Entries that are nil are
  left out of a proof; that happens only for a digest size of 0, where every value is
  empty and the check still succeeds.
\<close>

theorem ProofTree_round_trip:
  assumes ne: "leaves \<noteq> []"
    and sz: "\<forall>l\<in>set leaves. length (bytes_of l) = Size f"
    and dg: "\<forall>x. length (digest f x) = Size f"
  shows "\<exists>root proofs. ProofTree f leaves = Some (root, proofs)
           \<and> length proofs = length leaves
           \<and> (\<forall>i<length leaves. Check (proofs ! i) f root (leaves ! i))"
proof -
  let ?n = "length leaves"
  from depth_loop_terminates [of 1 ?n 0] obtain depth where
    dl: "depth_loop 1 ?n 0 = Some depth" and nle: "?n \<le> 2 ^ depth" by auto
  let ?N = "(2::nat) ^ depth"
  let ?pad = "Some (replicate (Size f) (0::8 word))"
  let ?L0 = "leaves @ replicate (?N - ?n) ?pad"
  let ?c0 = "\<lparr>newHash = f, hash = None\<rparr>"
  let ?tree0 = "(replicate (depth + 1) ([]::HashId list))[depth := ?L0]"
  let ?X = "\<lambda>e. (up f ^^ e) ?L0"
  have lenL0: "length ?L0 = 2 ^ depth" using nle by simp
  have szL0: "\<forall>x\<in>set ?L0. length (bytes_of x) = Size f"
    using sz by (auto simp: bytes_of_def)
  have szX: "\<forall>x\<in>set (?X e). length (bytes_of x) = Size f" for e
    by (rule levels_sizes [OF dg szL0])
  obtain tree' c' tfinal where tl: "tree_loop depth (?tree0, ?c0, ?L0) = (tree', c', tfinal)"
    by (cases "tree_loop depth (?tree0, ?c0, ?L0)")
  have lt0: "length ?tree0 = depth + 1"
    by (simp only: length_list_update length_replicate)
  have t0: "?tree0 ! depth = ?L0"
    by (simp only: nth_list_update_eq length_replicate less_add_one)
  have dlt: "depth < length ?tree0" by (simp only: lt0 less_add_one)
  have nh: "newHash ?c0 = f" by simp
  have "case tree_loop depth (?tree0, ?c0, ?L0) of (tree', c', tfinal) \<Rightarrow>
        length tree' = length ?tree0
        \<and> (\<forall>L<depth. tree' ! L = (up f ^^ (depth - L)) ?L0)
        \<and> (\<forall>L\<ge>depth. tree' ! L = ?tree0 ! L)
        \<and> tfinal = (up f ^^ depth) ?L0"
    by (rule tree_loop_char [OF lenL0 dlt nh])
  then have all: "length tree' = length ?tree0
        \<and> (\<forall>L<depth. tree' ! L = (up f ^^ (depth - L)) ?L0)
        \<and> (\<forall>L\<ge>depth. tree' ! L = ?tree0 ! L)
        \<and> tfinal = (up f ^^ depth) ?L0"
    unfolding tl prod.case .
  have lt: "length tree' = depth + 1" using all lt0 by metis
  have lo: "\<forall>L<depth. tree' ! L = (up f ^^ (depth - L)) ?L0" using all by blast
  have hi: "tree' ! depth = ?L0" using all t0 by (metis order_refl)
  have tf: "tfinal = ?X depth" using all by blast
  have lvl: "tree' ! (depth - e) = ?X e" if "e \<le> depth" for e
  proof (cases "e = 0")
    case True
    then show ?thesis using hi by simp
  next
    case False
    then have "depth - e < depth" "depth - (depth - e) = e" using that by simp_all
    then show ?thesis using lo by metis
  qed
  have lenX: "length (?X e) = 2 ^ (depth - e)" if "e \<le> depth" for e
    using length_up_pow [OF lenL0 that] .
  have ltf: "length tfinal = 1" using tf lenX [of depth] by simp
  let ?root = "tfinal ! 0"
  let ?g = "\<lambda>i e. ?X e ! sibling (i div 2 ^ e)"
  let ?P = "\<lambda>i. filter (\<lambda>h. h \<noteq> None) (map (?g i) (rev [0..<depth]))"
  have sib: "sibling (i div 2 ^ e) < length (?X e)" if "i < ?N" "e < depth" for i e
  proof -
    have "depth - e = Suc (depth - Suc e)" using that(2) by simp
    then have "even ((2::nat) ^ (depth - e))" by simp
    moreover have "i div 2 ^ e < 2 ^ (depth - e)" using div_pow_less [OF that(1), of e] that(2) by simp
    ultimately show ?thesis using lenX [of e] that(2) by (simp add: sibling_lt)
  qed
  have pl: "proof_loop depth tree' depth i [] = Some (?P i)" if "i < ?N" for i
  proof -
    have "proof_loop depth tree' depth i [] =
           Some ([] @ filter (\<lambda>h. h \<noteq> None)
                  (map (\<lambda>e. tree' ! (depth - e) ! sibling (drop_bit e i)) (rev [0..<depth])))"
    proof (rule proof_loop_char)
      fix e assume e: "e < depth"
      show "depth - e < length tree' \<and> sibling (drop_bit e i) < length (tree' ! (depth - e))"
        using lt lvl [of e] sib [OF that e] e by (simp add: drop_bit_eq_div)
    qed
    moreover have "map (\<lambda>e. tree' ! (depth - e) ! sibling (drop_bit e i)) (rev [0..<depth])
        = map (?g i) (rev [0..<depth])"
      using lvl by (simp add: drop_bit_eq_div)
    ultimately show ?thesis by simp
  qed
  from proofs_loop_char [of 0 ?N depth tree' ?P] pl obtain ps where
    ps: "proofs_loop ?N tree' depth 0 = Some ps" "length ps = ?N" "\<forall>j<?N. ps ! j = ?P j"
    by auto
  have res: "ProofTree f leaves = Some (?root, take ?n ps)"
    using ne dl tl ltf ps nle by (simp add: ProofTree_def Let_def push_bit_eq_mult)
  have chk: "Check (take ?n ps ! i) f ?root (leaves ! i)" if i: "i < ?n" for i
  proof -
    have iN: "i < ?N" using i nle by simp
    have pi: "take ?n ps ! i = ?P i" using i ps(3) iN by simp
    have li: "leaves ! i = ?L0 ! i" using i by (simp add: nth_append)
    have rv: "rev (?P i) = filter (\<lambda>h. h \<noteq> None) (map (?g i) [0..<depth])"
      by (simp add: rev_filter rev_map)
    have root_in: "?root \<in> set (?X depth)" using tf ltf by (metis nth_mem zero_less_one)
    have goal: "fold (\<lambda>h x. nodeb f x (bytes_of h)) (rev (?P i)) (bytes_of (?L0 ! i)) = bytes_of ?root"
    proof (cases "Size f = 0")
      case True
      have "\<forall>x. length (digest f x) = 0" using dg True by simp
      moreover have "bytes_of (?L0 ! i) = []" using szL0 True iN lenL0 by (metis length_0_conv nth_mem)
      ultimately have "fold (\<lambda>h x. nodeb f x (bytes_of h)) (rev (?P i)) (bytes_of (?L0 ! i)) = []"
        by (rule fold_nodeb_empty)
      moreover have "bytes_of ?root = []" using szX [of depth] root_in True by simp
      ultimately show ?thesis by simp
    next
      case False
      have "?g i e \<noteq> None" if "e < depth" for e
      proof -
        have "?g i e \<in> set (?X e)" using sib [OF iN that] by simp
        then have "length (bytes_of (?g i e)) = Size f" using szX [of e] by blast
        then show ?thesis using False by (intro nonempty_not_nil [where n = "Size f"]) simp_all
      qed
      then have "filter (\<lambda>h. h \<noteq> None) (map (?g i) [0..<depth]) = map (?g i) [0..<depth]"
        by (simp add: filter_id_conv)
      then have "fold (\<lambda>h x. nodeb f x (bytes_of h)) (rev (?P i)) (bytes_of (?L0 ! i))
          = bytes_of (?X depth ! (i div 2 ^ depth))"
        using path_fold [OF lenL0 iN, of depth f] rv by simp
      then show ?thesis using tf iN by simp
    qed
    show ?thesis
      unfolding Check_bytes pi li by (rule goal)
  qed
  show ?thesis
    using res chk ps(2) nle by simp
qed

theorem ProofTree_round_trip_witness:
  "ProofTree toy_hash toy_leaves =
     Some (Some [32, 4],
       [[Some [12, 4], Some [3, 4]], [Some [12, 4], Some [1, 2]], [Some [11, 4], Some [0, 0]]])
   \<and> Check [Some [12, 4], Some [3, 4]] toy_hash (Some [32, 4]) (Some [1, 2])
   \<and> Check [Some [12, 4], Some [1, 2]] toy_hash (Some [32, 4]) (Some [3, 4])
   \<and> Check [Some [11, 4], Some [0, 0]] toy_hash (Some [32, 4]) (Some [5, 6])"
proof -
  have ne: "toy_leaves \<noteq> []" by (simp add: toy_leaves_def)
  have sz: "\<forall>l\<in>set toy_leaves. length (bytes_of l) = Size toy_hash"
    by (simp add: toy_leaves_def toy_hash_def bytes_of_def)
  have dg: "\<forall>x. length (digest toy_hash x) = Size toy_hash" by (simp add: toy_hash_def)
  from ProofTree_round_trip [OF ne sz dg] toy_tree
  have "\<forall>i<length toy_leaves.
          Check ([[Some [12, 4], Some [3, 4]], [Some [12, 4], Some [1, 2]], [Some [11, 4], Some [0, 0]]] ! i)
            toy_hash (Some [32, 4]) (toy_leaves ! i)"
    by auto
  then have "\<forall>i<3.
          Check ([[Some [12, 4], Some [3, 4]], [Some [12, 4], Some [1, 2]], [Some [11, 4], Some [0, 0]]] ! i)
            toy_hash (Some [32, 4]) ([Some [1, 2], Some [3, 4], Some [5, 6]] ! i)"
    by (simp add: toy_leaves_def)
  from this [rule_format, of 0] this [rule_format, of 1] this [rule_format, of 2] toy_tree
  show ?thesis by simp
qed

section \<open>Properties of the randomness server\<close>

subsection \<open>Every run of serve is one of the runs\<close>

lemma recv_cases:
  assumes "recv E s dec st = (r, st')"
  obtains e where "r = Inl e" "trace st' = trace st @ [Recv (Inl e)]"
  | m where "dec (clipub s) m = r" "trace st' = trace st @ [Recv (Inr m)]"
  using assms by (auto simp: recv_def Let_def split: prod.splits sum.splits)

lemma send_cases:
  assumes "send E s ob st = (r, st')"
  obtains e w w' where "r = Some e" "trace st' = trace st" "sigEncode E (srvsec s) ob w = (Inl e, w')"
  | m where "trace st' = trace st @ [Send ob m r]"
  using assms by (auto simp: send_def Let_def split: prod.splits sum.splits)

lemma round4_runs:
  assumes "serve_round4 E s i3 shares st = (res, st')"
  shows "\<exists>evs. trace st' = trace st @ evs \<and> round4_run E s i3 shares evs res"
  using assms unfolding serve_round4_def Let_def round4_run_def
  by (auto split: prod.splits sum.splits option.splits if_splits elim!: recv_cases send_cases)

lemma round3_runs:
  assumes "serve_round3 E s rc st = (res, st')"
  shows "\<exists>evs. trace st' = trace st @ evs \<and> round3_run E s rc evs res"
  using assms unfolding serve_round3_def Let_def round3_run_def
  by (auto split: prod.splits sum.splits option.splits if_splits result.splits elim!: recv_cases send_cases dest!: round4_runs)


lemma round2_runs:
  assumes "serve_round2 E s i1 rs st = (res, st')"
  shows "\<exists>evs. trace st' = trace st @ evs \<and> round2_run E s i1 rs evs res"
  using assms unfolding serve_round2_def Let_def round2_run_def
  by (auto split: prod.splits sum.splits option.splits if_splits result.splits elim!: recv_cases send_cases dest!: round3_runs)

lemma serve_runs:
  assumes "serve E s st = (res, st')"
  shows "\<exists>evs. trace st' = trace st @ evs \<and> serve_run E s evs res"
  using assms unfolding serve_def Let_def serve_run_def
  by (auto split: prod.splits sum.splits option.splits if_splits result.splits elim!: recv_cases send_cases dest!: round2_runs)

subsection \<open>The loops of round 3 and round 4\<close>

lemma sel_loop_char:
  "(list_ex (response_failure E s deal) (filter (\<lambda>k. sel ! k = self s) ks)
      \<longrightarrow> (\<exists>e. sel_loop E s i deal sel ks acc = Inl e))
   \<and> (\<not> list_ex (response_failure E s deal) (filter (\<lambda>k. sel ! k = self s) ks)
      \<longrightarrow> sel_loop E s i deal sel ks acc =
          Inr (fst acc @ concat (map (share_at E s i deal) (filter (\<lambda>k. sel ! k = self s) ks)),
               snd acc @ concat (map (resp_at E s i deal) (filter (\<lambda>k. sel ! k = self s) ks))))"
proof (induction ks arbitrary: acc)
  case Nil
  then show ?case by simp
next
  case (Cons k ks)
  show ?case
  proof (cases "sel ! k = self s")
    case False
    then show ?thesis using Cons.IH [of acc] by simp
  next
    case True
    show ?thesis
    proof (cases "ProduceResponse E deal k (keypair s)")
      case (Inl e)
      then show ?thesis using True by (simp add: response_failure_def)
    next
      case (Inr sr)
      obtain share resp where sr: "sr = (share, resp)" by (cases sr)
      show ?thesis
      proof (cases "MarshalResponse E resp")
        case (Inl e)
        then show ?thesis using True Inr sr by (simp add: response_failure_def)
      next
        case b: (Inr b)
        have step: "sel_loop E s i deal sel (k # ks) acc =
            sel_loop E s i deal sel ks (fst acc @ [R4Share i k share], snd acc @ [R3Resp i k b])"
          using True Inr sr b by simp
        have nf: "\<not> response_failure E s deal k"
          using Inr sr b by (simp add: response_failure_def)
        have sh: "share_at E s i deal k = [R4Share i k share]"
          using Inr sr by (simp add: share_at_def)
        have rp: "resp_at E s i deal k = [R3Resp i k b]"
          using Inr sr b by (simp add: resp_at_def)
        show ?thesis
          unfolding step
          using Cons.IH [of "(fst acc @ [R4Share i k share], snd acc @ [R3Resp i k b])"] True nf sh rp
          by simp
      qed
    qed
  qed
qed

lemma i3_loop_char:
  "(list_ex (slot_failure E s rc i3) is \<longrightarrow> (\<exists>e. i3_loop E s rc i3 is acc = Inl e))
   \<and> (\<not> list_ex (slot_failure E s rc i3) is
      \<longrightarrow> i3_loop E s rc i3 is acc =
          Inr (fst acc @ concat (map (slot_shares E s rc i3) is),
               snd acc @ concat (map (slot_resps E s rc i3) is)))"
proof (induction "is" arbitrary: acc)
  case Nil
  then show ?case by simp
next
  case (Cons i "is")
  show ?case
  proof (cases "I3.R2s i3 ! i = []")
    case True
    have nf: "\<not> slot_failure E s rc i3 i" using True by (simp add: slot_failure_def)
    have sh: "slot_shares E s rc i3 i = []" using True by (simp add: slot_shares_def)
    have rp: "slot_resps E s rc i3 i = []" using True by (simp add: slot_resps_def)
    have step: "i3_loop E s rc i3 (i # is) acc = i3_loop E s rc i3 is acc"
      using True by (simp add: Let_def)
    show ?thesis unfolding step using Cons.IH [of acc] nf sh rp by simp
  next
    case ne: False
    show ?thesis
    proof (cases "sigDecodeR2 E (srvpub s ! i) (I3.R2s i3 ! i)")
      case (Inl e)
      then show ?thesis using ne by (simp add: slot_failure_def Let_def)
    next
      case r2: (Inr r2i)
      show ?thesis
      proof (cases "UnmarshalPromise E thresT thresR thresN (Deal r2i)")
        case (Inl e)
        then show ?thesis using ne r2 by (simp add: slot_failure_def Let_def)
      next
        case dl: (Inr deal)
        let ?sel = "pickInsurers E (srvpub s) rc (Rs r2i)"
        have pos: "positions E s rc r2i = filter (\<lambda>k. ?sel ! k = self s) [0..<length ?sel]"
          by (simp add: positions_def Let_def)
        show ?thesis
        proof (cases "list_ex (response_failure E s deal) (positions E s rc r2i)")
          case True
          then obtain e where "sel_loop E s i deal ?sel [0..<length ?sel] acc = Inl e"
            using sel_loop_char [of E s deal ?sel "[0..<length ?sel]" i acc] pos by auto
          moreover have "slot_failure E s rc i3 i"
            using ne r2 dl True by (simp add: slot_failure_def)
          ultimately show ?thesis using ne r2 dl by (simp add: Let_def)
        next
          case False
          then have sl: "sel_loop E s i deal ?sel [0..<length ?sel] acc
              = Inr (fst acc @ concat (map (share_at E s i deal) (positions E s rc r2i)),
                     snd acc @ concat (map (resp_at E s i deal) (positions E s rc r2i)))"
            using sel_loop_char [of E s deal ?sel "[0..<length ?sel]" i acc] pos by simp
          have nf: "\<not> slot_failure E s rc i3 i"
            using ne r2 dl False by (simp add: slot_failure_def)
          have sh: "slot_shares E s rc i3 i = concat (map (share_at E s i deal) (positions E s rc r2i))"
            using ne r2 dl by (simp add: slot_shares_def)
          have rp: "slot_resps E s rc i3 i = concat (map (resp_at E s i deal) (positions E s rc r2i))"
            using ne r2 dl by (simp add: slot_resps_def)
          have step: "i3_loop E s rc i3 (i # is) acc = i3_loop E s rc i3 is
              (fst acc @ slot_shares E s rc i3 i, snd acc @ slot_resps E s rc i3 i)"
            using ne r2 dl sl sh rp by (simp add: Let_def)
          show ?thesis
            unfolding step
            using Cons.IH [of "(fst acc @ slot_shares E s rc i3 i, snd acc @ slot_resps E s rc i3 i)"] nf
            by simp
        qed
      qed
    qed
  qed
qed

lemma i3_loop_Inl: "i3_loop E s rc i3 is acc = Inl e \<Longrightarrow> list_ex (slot_failure E s rc i3) is"
  using i3_loop_char [of E s rc i3 "is" acc] by auto

lemma i3_loop_Inr:
  "i3_loop E s rc i3 is acc = Inr r \<Longrightarrow>
     \<not> list_ex (slot_failure E s rc i3) is
     \<and> r = (fst acc @ concat (map (slot_shares E s rc i3) is),
            snd acc @ concat (map (slot_resps E s rc i3) is))"
  using i3_loop_char [of E s rc i3 "is" acc] by auto

lemma i4_loop_None: "i4_loop i4 i3 is = None \<longleftrightarrow> (\<forall>i\<in>set is. I4.R2s i4 ! i = [] \<or> I4.R2s i4 ! i = I3.R2s i3 ! i)"
  by (induction "is") (auto simp: Let_def)

lemma i3_loop_no_failure:
  "i3_loop E s rc i3 is acc = Inr r \<Longrightarrow> \<not> list_ex (slot_failure E s rc i3) is"
  using i3_loop_Inr by blast

lemma i4_loop_None_all:
  "i4_loop i4 i3 is = None \<Longrightarrow> list_all (\<lambda>i. I4.R2s i4 ! i = [] \<or> I4.R2s i4 ! i = I3.R2s i3 ! i) is"
  by (simp add: i4_loop_None list_all_iff)

lemma i4_loop_Some: "i4_loop i4 i3 is = Some e \<Longrightarrow> e = ''R2 set in I4 not a subset of I3''"
  by (induction "is") (auto simp: Let_def split: if_splits)

lemma concat_present_shares:
  "concat (map (slot_shares E s rc i3) is) = concat (map (slot_shares E s rc i3) (filter (present i3) is))"
  by (induction "is") (auto simp: present_def slot_shares_def)

lemma concat_present_resps:
  "concat (map (slot_resps E s rc i3) is) = concat (map (slot_resps E s rc i3) (filter (present i3) is))"
  by (induction "is") (auto simp: present_def slot_resps_def)

lemma share_at_keys:
  "\<not> list_ex (response_failure E s deal) ks \<Longrightarrow>
     map share_key (concat (map (share_at E s i deal) ks)) = map (Pair i) ks"
  by (induction ks) (auto simp: response_failure_def share_at_def split: sum.splits)

lemma resp_at_keys:
  "\<not> list_ex (response_failure E s deal) ks \<Longrightarrow>
     map resp_key (concat (map (resp_at E s i deal) ks)) = map (Pair i) ks"
  by (induction ks) (auto simp: response_failure_def resp_at_def resp_key_def split: sum.splits)

lemma slot_shares_keys:
  assumes "\<not> slot_failure E s rc i3 i" "present i3 i"
  shows "map share_key (slot_shares E s rc i3 i) = map (Pair i) (slot_positions E s rc i3 i)"
  using assms
  by (auto simp: slot_failure_def present_def slot_shares_def slot_positions_def share_at_keys
      split: sum.splits)

lemma slot_resps_keys:
  assumes "\<not> slot_failure E s rc i3 i" "present i3 i"
  shows "map resp_key (slot_resps E s rc i3 i) = map (Pair i) (slot_positions E s rc i3 i)"
  using assms
  by (auto simp: slot_failure_def present_def slot_resps_def slot_positions_def resp_at_keys
      split: sum.splits)

lemma all_shares_keys:
  "\<not> list_ex (slot_failure E s rc i3) is \<Longrightarrow>
     map share_key (concat (map (slot_shares E s rc i3) (filter (present i3) is)))
       = concat (map (\<lambda>i. map (Pair i) (slot_positions E s rc i3 i)) (filter (present i3) is))"
  by (induction "is") (auto simp: slot_shares_keys)

lemma all_resps_keys:
  "\<not> list_ex (slot_failure E s rc i3) is \<Longrightarrow>
     map resp_key (concat (map (slot_resps E s rc i3) (filter (present i3) is)))
       = concat (map (\<lambda>i. map (Pair i) (slot_positions E s rc i3 i)) (filter (present i3) is))"
  by (induction "is") (auto simp: slot_resps_keys)

lemma selkeys_loop_Some:
  "selkeys_loop pub sel = Some ks \<Longrightarrow>
     ks = map (\<lambda>j. Point (pub ! nat j)) sel \<and> (\<forall>j\<in>set sel. 0 \<le> j \<and> j < int (length pub))"
  by (induction sel arbitrary: ks) (auto split: if_splits option.splits)

lemma i3_loop_ok:
  "\<not> list_ex (slot_failure E s rc i3) is \<Longrightarrow> i3_loop E s rc i3 is acc = Inl e \<Longrightarrow> False"
  using i3_loop_Inl by blast

lemma i4_loop_ok:
  "list_all (\<lambda>i. I4.R2s i4 ! i = [] \<or> I4.R2s i4 ! i = I3.R2s i3 ! i) is \<Longrightarrow>
     i4_loop i4 i3 is = Some e \<Longrightarrow> False"
  using i4_loop_None [of i4 i3 "is"] by (simp add: list_all_iff)

lemma encode_ok:
  "\<forall>ob w. \<exists>b w'. sigEncode E sk ob w = (Inr b, w') \<Longrightarrow> sigEncode E sk ob w = (Inl e, w') \<Longrightarrow> False"
  by (metis Inl_Inr_False prod.inject)

lemma selkeys_loop_None:
  "selkeys_loop pub sel = None \<Longrightarrow> \<not> list_all (\<lambda>j. 0 \<le> j \<and> j < int (length pub)) sel"
  by (induction sel) (auto split: if_splits option.splits)

lemma full_selection_selects:
  assumes d: "distinct sel" and l: "length sel = N"
    and r: "list_all (\<lambda>j. 0 \<le> j \<and> j < int N) sel" and me: "0 \<le> me" "me < int N"
  shows "filter (\<lambda>k. sel ! k = me) [0..<length sel] \<noteq> []"
proof -
  have sub: "set sel \<subseteq> {0..<int N}" using r by (auto simp: list_all_iff)
  have "card (set sel) = N" using d l by (simp add: distinct_card)
  moreover have "card {0..<int N} = N" by simp
  ultimately have "set sel = {0..<int N}"
    using sub by (metis card_subset_eq finite_atLeastLessThan_int)
  then have "me \<in> set sel" using me by simp
  then obtain k where "k < length sel" "sel ! k = me" by (auto simp: in_set_conv_nth)
  then show ?thesis by (auto simp: filter_empty_conv)
qed

subsection \<open>Honest sessions\<close>

lemma encoded_append:
  "encoded E s (drop n xs) \<Longrightarrow> encoded E s ys \<Longrightarrow> encoded E s (drop n (xs @ ys))"
  unfolding encoded_def drop_append set_append by (blast dest: in_set_dropD)

lemma recv_enc:
  assumes "recv E s dec st = (r, st')"
  shows "encoded E s (drop n (trace st)) \<longrightarrow> encoded E s (drop n (trace st'))"
proof -
  have "encoded E s [Recv x]" for x by (simp add: encoded_def)
  then show ?thesis
    using assms
    by (auto simp: recv_def Let_def encoded_append simp del: drop_append split: prod.splits sum.splits)
qed

lemma send_enc:
  assumes "send E s ob st = (r, st')"
  shows "encoded E s (drop n (trace st)) \<longrightarrow> encoded E s (drop n (trace st'))"
proof -
  have "encoded E s [Send ob b x]" if "sigEncode E (srvsec s) ob w = (Inr b, w')" for x b w w'
    using that by (auto simp: encoded_def)
  then show ?thesis
    using assms
    by (auto simp: send_def Let_def encoded_append simp del: drop_append split: prod.splits sum.splits)
qed

lemma round4_enc:
  assumes "serve_round4 E s i3 shares st = (res, st')"
  shows "encoded E s (drop n (trace st)) \<longrightarrow> encoded E s (drop n (trace st'))"
  using assms unfolding serve_round4_def Let_def
  by (auto split: prod.splits sum.splits option.splits if_splits
      dest!: recv_enc [where n = n] send_enc [where n = n])

lemma round3_enc:
  assumes "serve_round3 E s rc st = (res, st')"
  shows "encoded E s (drop n (trace st)) \<longrightarrow> encoded E s (drop n (trace st'))"
  using assms unfolding serve_round3_def Let_def
  by (auto split: prod.splits sum.splits option.splits if_splits
      dest!: recv_enc [where n = n] send_enc [where n = n] round4_enc [where n = n])

lemma round2_enc:
  assumes "serve_round2 E s i1 rs st = (res, st')"
  shows "encoded E s (drop n (trace st)) \<longrightarrow> encoded E s (drop n (trace st'))"
  using assms unfolding serve_round2_def Let_def
  by (auto split: prod.splits sum.splits option.splits if_splits
      dest!: recv_enc [where n = n] send_enc [where n = n] round3_enc [where n = n])

lemma serve_enc:
  assumes "serve E s st = (res, st')"
  shows "encoded E s (drop n (trace st)) \<longrightarrow> encoded E s (drop n (trace st'))"
  using assms unfolding serve_def Let_def
  by (auto split: prod.splits sum.splits option.splits if_splits
      dest!: recv_enc [where n = n] send_enc [where n = n] round2_enc [where n = n])

lemma events_encoded: "encoded E s (events E s st)"
proof -
  have "encoded E s (drop (length (trace st)) (trace st))" by (simp add: encoded_def)
  with serve_enc [OF surjective_pairing, where n = "length (trace st)" and E = E and s = s and st = st]
  show ?thesis by (simp add: events_def)
qed

lemma events_run: "serve_run E s (events E s st) (fst (serve E s st))"
proof -
  from serve_runs [OF surjective_pairing]
  obtain evs where "trace (snd (serve E s st)) = trace st @ evs" "serve_run E s evs (fst (serve E s st))"
    by blast
  then show ?thesis by (simp add: events_def)
qed

lemma selkeys_loop_length: "selkeys_loop pub sel = Some ks \<Longrightarrow> length ks = length sel"
  by (induction sel arbitrary: ks) (auto split: if_splits option.splits)

lemma list4: "length ms = 4 \<Longrightarrow> ms = [ms ! 0, ms ! 1, ms ! 2, ms ! 3]"
  by (cases ms; cases "tl ms"; cases "tl (tl ms)"; cases "tl (tl (tl ms))") auto

lemma honest_rounds12:
  assumes sr: "serve_run E s evs res"
    and del: "delivered [m1, m2, m3, m4] evs"
    and d1: "sigDecodeI1 E (clipub s) m1 = Inr (I1 (suiteSum E rc))"
    and d2: "sigDecodeI2 E (clipub s) m2 = Inr (I2 rc)"
    and encode: "\<forall>ob w. \<exists>b w'. sigEncode E (srvsec s) ob w = (Inr b, w')"
    and sel: "\<forall>rs. length (pickInsurers E (srvpub s) rc rs) = thresN
                \<and> list_all (\<lambda>j. 0 \<le> j \<and> j < int (length (srvpub s))) (pickInsurers E (srvpub s) rc rs)"
    and marshal: "\<forall>sec kp keys. length keys = thresN \<longrightarrow>
                    (\<exists>b. MarshalPromise E (ConstructPromise E sec kp thresT thresR keys) = Inr b)"
  shows "\<exists>r1 b1 rs sec dealb b2 evs3.
           evs = Recv (Inr m1) # Send (ObjR1 r1) b1 None # Recv (Inr m2)
                   # Send (ObjR2 (R2 rs dealb)) b2 None # evs3
           \<and> MarshalPromise E (ConstructPromise E sec (keypair s) thresT thresR
                 (map (\<lambda>j. Point (srvpub s ! nat j)) (pickInsurers E (srvpub s) rc rs))) = Inr dealb
           \<and> round3_run E s rc evs3 res \<and> delivered [m3, m4] evs3"
proof -
  from sr del d1 encode obtain rs r1 b1 evs2 where
    e1: "evs = Recv (Inr m1) # Send (ObjR1 r1) b1 None # evs2"
    and r2: "round2_run E s (I1 (suiteSum E rc)) rs evs2 res"
    unfolding serve_run_def by (auto dest: encode_ok)
  from del e1 have del2: "delivered [m2, m3, m4] evs2" by simp
  have nopanic: "selkeys_loop (srvpub s) (pickInsurers E (srvpub s) rc rs) \<noteq> None"
    using sel selkeys_loop_None by blast
  have nomarsh: "MarshalPromise E (ConstructPromise E sec kp thresT thresR selkeys) \<noteq> Inl e"
    if "selkeys_loop (srvpub s) (pickInsurers E (srvpub s) rc rs) = Some selkeys" for sec kp selkeys e
  proof -
    from selkeys_loop_length [OF that] sel have "length selkeys = thresN" by simp
    with marshal show ?thesis by (metis Inl_Inr_False)
  qed
  from r2 del2 d2 encode nopanic nomarsh obtain sec selkeys dealb b2 evs3 where
    e2: "evs2 = Recv (Inr m2) # Send (ObjR2 (R2 rs dealb)) b2 None # evs3"
    and sk: "selkeys_loop (srvpub s) (pickInsurers E (srvpub s) rc rs) = Some selkeys"
    and mp: "MarshalPromise E (ConstructPromise E sec (keypair s) thresT thresR selkeys) = Inr dealb"
    and r3: "round3_run E s rc evs3 res"
    unfolding round2_run_def by (auto dest: encode_ok)
  from del2 e2 have del3: "delivered [m3, m4] evs3" by simp
  from selkeys_loop_Some [OF sk]
  have "selkeys = map (\<lambda>j. Point (srvpub s ! nat j)) (pickInsurers E (srvpub s) rc rs)" by simp
  with e1 e2 mp r3 del3 show ?thesis by blast
qed

lemma honest_rounds34:
  assumes r3: "round3_run E s rc evs3 res"
    and del: "delivered [m3, m4] evs3"
    and d3: "sigDecodeI3 E (clipub s) m3 = Inr i3"
    and l3: "length (I3.R2s i3) = length (srvpub s)"
    and nf: "\<not> list_ex (slot_failure E s rc i3) [0..<length (srvpub s)]"
    and d4: "sigDecodeI4 E (clipub s) m4 = Inr i4"
    and l4: "length (I4.R2s i4) = length (srvpub s)"
    and sub: "list_all (\<lambda>i. I4.R2s i4 ! i = [] \<or> I4.R2s i4 ! i = I3.R2s i3 ! i) [0..<length (srvpub s)]"
    and encode: "\<forall>ob w. \<exists>b w'. sigEncode E (srvsec s) ob w = (Inr b, w')"
  shows "res = Value ()
       \<and> (\<exists>r3 b3 b4. evs3 = [Recv (Inr m3), Send (ObjR3 r3) b3 None, Recv (Inr m4),
            Send (ObjR4 (R4 (concat (map (slot_shares E s rc i3) [0..<length (srvpub s)])))) b4 None])"
proof -
  from r3 del d3 l3 nf encode obtain shares resps b3 evs4 where
    e3: "evs3 = Recv (Inr m3) # Send (ObjR3 (R3 resps)) b3 None # evs4"
    and loop: "i3_loop E s rc i3 [0..<length (srvpub s)] ([], []) = Inr (shares, resps)"
    and r4: "round4_run E s i3 shares evs4 res"
    unfolding round3_run_def by (auto dest: i3_loop_ok encode_ok)
  from del e3 have del4: "delivered [m4] evs4" by simp
  from r4 del4 d4 l4 sub encode obtain b4 where
    e4: "evs4 = [Recv (Inr m4), Send (ObjR4 (R4 shares)) b4 None]" and res: "res = Value ()"
    unfolding round4_run_def by (auto dest: encode_ok i4_loop_ok)
  from i3_loop_Inr [OF loop] have "shares = concat (map (slot_shares E s rc i3) [0..<length (srvpub s)])"
    by simp
  with e3 e4 res show ?thesis by blast
qed

lemma honest_slot:
  assumes dec: "sigDecodeR2 E (srvpub s ! j) (I3.R2s i3 ! j) = Inr (R2 rs dealb)"
    and ne: "I3.R2s i3 ! j \<noteq> []"
    and mp: "MarshalPromise E (ConstructPromise E sec kp thresT thresR
               (map (\<lambda>x. Point (srvpub s ! nat x)) (pickInsurers E (srvpub s) rc rs))) = Inr dealb"
    and len: "length (pickInsurers E (srvpub s) rc rs) = thresN"
    and me: "self s = int i"
    and unmarshal: "\<forall>sec kp keys b. length keys = thresN
                    \<and> MarshalPromise E (ConstructPromise E sec kp thresT thresR keys) = Inr b \<longrightarrow>
                    (\<exists>d. UnmarshalPromise E thresT thresR thresN b = Inr d
                       \<and> (\<forall>k kp'. ProduceResponse E d k kp'
                            = ProduceResponse E (ConstructPromise E sec kp thresT thresR keys) k kp'))"
    and respond: "\<forall>sec kp keys k. k < length keys \<and> keys ! k = Point (srvpub s ! i) \<longrightarrow>
                    (\<exists>sh rp b. ProduceResponse E (ConstructPromise E sec kp thresT thresR keys) k (keypair s)
                                 = Inr (sh, rp) \<and> MarshalResponse E rp = Inr b)"
  shows "\<not> slot_failure E s rc i3 j \<and> present i3 j
       \<and> slot_positions E s rc i3 j
           = filter (\<lambda>k. pickInsurers E (srvpub s) rc rs ! k = int i) [0..<thresN]"
proof -
  let ?sel = "pickInsurers E (srvpub s) rc rs"
  let ?keys = "map (\<lambda>x. Point (srvpub s ! nat x)) ?sel"
  let ?deal = "ConstructPromise E sec kp thresT thresR ?keys"
  from unmarshal mp len obtain d where
    um: "UnmarshalPromise E thresT thresR thresN dealb = Inr d"
    and same: "\<And>k kp'. ProduceResponse E d k kp' = ProduceResponse E ?deal k kp'"
    by (metis length_map)
  have pos: "positions E s rc (R2 rs dealb) = filter (\<lambda>k. ?sel ! k = int i) [0..<thresN]"
    using len me by (simp add: positions_def Let_def)
  have ok: "\<not> response_failure E s d k" if "k < thresN" "?sel ! k = int i" for k
  proof -
    have "k < length ?keys" "?keys ! k = Point (srvpub s ! i)" using that len by simp_all
    with respond obtain sh rp b where
      "ProduceResponse E ?deal k (keypair s) = Inr (sh, rp)" "MarshalResponse E rp = Inr b"
      by blast
    then show ?thesis using same by (simp add: response_failure_def)
  qed
  have "\<not> list_ex (response_failure E s d) (positions E s rc (R2 rs dealb))"
    unfolding pos using ok by (auto simp: list_ex_iff)
  then have "\<not> slot_failure E s rc i3 j" using dec um by (simp add: slot_failure_def)
  moreover have "present i3 j" using ne by (simp add: present_def)
  moreover have "slot_positions E s rc i3 j = filter (\<lambda>k. ?sel ! k = int i) [0..<thresN]"
    using dec pos by (simp add: slot_positions_def)
  ultimately show ?thesis by blast
qed

lemma honest_dealer:
  assumes sr: "serve_run E s evs res"
    and enc: "encoded E s evs"
    and del: "delivered ms evs"
    and cl: "honest_client E (clipub s) rc r2s acc ms"
    and encode: "\<forall>ob w. \<exists>b w'. sigEncode E (srvsec s) ob w = (Inr b, w')"
    and decode: "\<forall>r2 w b w'. sigEncode E (srvsec s) (ObjR2 r2) w = (Inr b, w')
                   \<longrightarrow> b \<noteq> [] \<and> sigDecodeR2 E pk b = Inr r2"
    and sel: "\<forall>rs. length (pickInsurers E (srvpub s) rc rs) = thresN
                \<and> list_all (\<lambda>j. 0 \<le> j \<and> j < int (length (srvpub s))) (pickInsurers E (srvpub s) rc rs)"
    and marshal: "\<forall>sec kp keys. length keys = thresN \<longrightarrow>
                    (\<exists>b. MarshalPromise E (ConstructPromise E sec kp thresT thresR keys) = Inr b)"
  shows "\<exists>sec dealb r1 b1 evs3.
           evs = Recv (Inr (ms ! 0)) # Send (ObjR1 r1) b1 None # Recv (Inr (ms ! 1))
                   # Send (ObjR2 (R2 (r2_seed evs) dealb)) (r2_sent evs) None # evs3
           \<and> round3_run E s rc evs3 res \<and> delivered [ms ! 2, ms ! 3] evs3
           \<and> r2_sent evs \<noteq> []
           \<and> sigDecodeR2 E pk (r2_sent evs) = Inr (R2 (r2_seed evs) dealb)
           \<and> MarshalPromise E (ConstructPromise E sec (keypair s) thresT thresR
                 (map (\<lambda>j. Point (srvpub s ! nat j)) (pickInsurers E (srvpub s) rc (r2_seed evs)))) = Inr dealb"
proof -
  from cl have l: "length ms = 4"
    and d1: "sigDecodeI1 E (clipub s) (ms ! 0) = Inr (I1 (suiteSum E rc))"
    and d2: "sigDecodeI2 E (clipub s) (ms ! 1) = Inr (I2 rc)"
    by (simp_all add: honest_client_def)
  from del list4 [OF l] have del': "delivered [ms ! 0, ms ! 1, ms ! 2, ms ! 3] evs" by simp
  from honest_rounds12 [OF sr del' d1 d2 encode sel marshal]
  obtain r1 b1 rs sec dealb b2 evs3 where
    e: "evs = Recv (Inr (ms ! 0)) # Send (ObjR1 r1) b1 None # Recv (Inr (ms ! 1))
                   # Send (ObjR2 (R2 rs dealb)) b2 None # evs3"
    and mp: "MarshalPromise E (ConstructPromise E sec (keypair s) thresT thresR
                 (map (\<lambda>j. Point (srvpub s ! nat j)) (pickInsurers E (srvpub s) rc rs))) = Inr dealb"
    and r3: "round3_run E s rc evs3 res" and del3: "delivered [ms ! 2, ms ! 3] evs3"
    by blast
  have sent: "r2_sent evs = b2" and seed: "r2_seed evs = rs"
    unfolding e by simp_all
  have mem: "Send (ObjR2 (R2 rs dealb)) b2 None \<in> set evs" unfolding e by simp
  from enc mem obtain w w' where "sigEncode E (srvsec s) (ObjR2 (R2 rs dealb)) w = (Inr b2, w')"
    unfolding encoded_def by blast
  with decode have ne: "b2 \<noteq> []" and dec: "sigDecodeR2 E pk b2 = Inr (R2 rs dealb)" by blast+
  have e': "evs = Recv (Inr (ms ! 0)) # Send (ObjR1 r1) b1 None # Recv (Inr (ms ! 1))
                   # Send (ObjR2 (R2 (r2_seed evs) dealb)) (r2_sent evs) None # evs3"
    unfolding sent seed by (rule e)
  have ne': "r2_sent evs \<noteq> []" unfolding sent by (rule ne)
  have dec': "sigDecodeR2 E pk (r2_sent evs) = Inr (R2 (r2_seed evs) dealb)"
    unfolding sent seed by (rule dec)
  have mp': "MarshalPromise E (ConstructPromise E sec (keypair s) thresT thresR
                 (map (\<lambda>j. Point (srvpub s ! nat j)) (pickInsurers E (srvpub s) rc (r2_seed evs)))) = Inr dealb"
    unfolding seed by (rule mp)
  show ?thesis
    by (intro exI conjI) (rule e' r3 del3 ne' dec' mp')+
qed


lemma held_nonempty:
  assumes "\<forall>j<length seeds. length (pickInsurers E pub rc (seeds ! j)) = thresN"
  shows "held E pub rc seeds i \<noteq> []
         \<longleftrightarrow> list_ex (\<lambda>j. int i \<in> set (pickInsurers E pub rc (seeds ! j))) [0..<length seeds]"
proof -
  have "filter (\<lambda>k. pickInsurers E pub rc (seeds ! j) ! k = int i) [0..<thresN] \<noteq> []
        \<longleftrightarrow> int i \<in> set (pickInsurers E pub rc (seeds ! j))" if "j < length seeds" for j
    using assms that by (auto simp: filter_empty_conv in_set_conv_nth)
  then show ?thesis
    by (auto simp: held_def list_ex_iff)
qed

lemma honest_session_serves:
  assumes honest: "honest_session E ss sts rc acc mss"
    and roster: "roster ss pub"
    and selector: "\<forall>rc rs. length (pickInsurers E pub rc rs) = thresN
                     \<and> distinct (pickInsurers E pub rc rs)
                     \<and> list_all (\<lambda>j. 0 \<le> j \<and> j < int (length pub)) (pickInsurers E pub rc rs)"
    and encode: "\<forall>j<length ss. \<forall>ob w. \<exists>b w'. sigEncode E (srvsec (ss ! j)) ob w = (Inr b, w')"
    and decode: "\<forall>j<length ss. \<forall>r2 w b w'. sigEncode E (srvsec (ss ! j)) (ObjR2 r2) w = (Inr b, w')
                   \<longrightarrow> b \<noteq> [] \<and> sigDecodeR2 E (pub ! j) b = Inr r2"
    and marshal: "\<forall>sec kp keys. length keys = thresN \<longrightarrow>
                    (\<exists>b d. MarshalPromise E (ConstructPromise E sec kp thresT thresR keys) = Inr b
                       \<and> UnmarshalPromise E thresT thresR thresN b = Inr d
                       \<and> (\<forall>k kp'. ProduceResponse E d k kp'
                            = ProduceResponse E (ConstructPromise E sec kp thresT thresR keys) k kp'))"
    and respond: "\<forall>j<length ss. \<forall>sec kp keys k. k < length keys \<and> keys ! k = Point (pub ! j) \<longrightarrow>
                    (\<exists>sh rp b. ProduceResponse E (ConstructPromise E sec kp thresT thresR keys) k
                                   (keypair (ss ! j)) = Inr (sh, rp)
                                \<and> MarshalResponse E rp = Inr b)"
    and i: "i < length ss"
  shows "fst (serve E (ss ! i) (sts ! i)) = Value ()
       \<and> (\<exists>r1 b1 r2 b2 r3 b3 b4 shares.
            events E (ss ! i) (sts ! i) =
              [Recv (Inr (mss ! i ! 0)), Send (ObjR1 r1) b1 None,
               Recv (Inr (mss ! i ! 1)), Send (ObjR2 r2) b2 None,
               Recv (Inr (mss ! i ! 2)), Send (ObjR3 r3) b3 None,
               Recv (Inr (mss ! i ! 3)), Send (ObjR4 (R4 shares)) b4 None]
            \<and> map share_key shares
                = held E pub rc (map (\<lambda>j. r2_seed (events E (ss ! j) (sts ! j))) [0..<length ss]) i
            \<and> (shares \<noteq> [] \<longleftrightarrow>
                 list_ex (\<lambda>j. int i \<in> set (pickInsurers E pub rc (r2_seed (events E (ss ! j) (sts ! j)))))
                   [0..<length ss])
            \<and> (length ss = thresN \<longrightarrow> shares \<noteq> []))"
proof -
  let ?N = "length ss"
  let ?ev = "\<lambda>j. events E (ss ! j) (sts ! j)"
  let ?r2s = "map (\<lambda>j. r2_sent (?ev j)) [0..<?N]"
  let ?seeds = "map (\<lambda>j. r2_seed (?ev j)) [0..<?N]"
  let ?s = "ss ! i"
  have pub: "srvpub (ss ! j) = pub" and self: "self (ss ! j) = int j" if "j < ?N" for j
    using roster that by (simp_all add: roster_def list_all_iff)
  have lpub: "length pub = ?N" using roster by (simp add: roster_def)
  have cl: "honest_client E (clipub (ss ! j)) rc ?r2s acc (mss ! j)"
    and del: "delivered (mss ! j) (?ev j)" if "j < ?N" for j
    using honest that by (simp_all add: honest_session_def list_all_iff)
  have sel1: "\<forall>rs. length (pickInsurers E (srvpub (ss ! j)) rc rs) = thresN
                \<and> list_all (\<lambda>x. 0 \<le> x \<and> x < int (length (srvpub (ss ! j))))
                     (pickInsurers E (srvpub (ss ! j)) rc rs)" if "j < ?N" for j
    using selector pub [OF that] by simp
  have marshal1: "\<forall>sec kp keys. length keys = thresN \<longrightarrow>
                    (\<exists>b. MarshalPromise E (ConstructPromise E sec kp thresT thresR keys) = Inr b)"
    using marshal by blast
  have unmarshal: "\<forall>sec kp keys b. length keys = thresN
                    \<and> MarshalPromise E (ConstructPromise E sec kp thresT thresR keys) = Inr b \<longrightarrow>
                    (\<exists>d. UnmarshalPromise E thresT thresR thresN b = Inr d
                       \<and> (\<forall>k kp'. ProduceResponse E d k kp'
                            = ProduceResponse E (ConstructPromise E sec kp thresT thresR keys) k kp'))"
  proof (intro allI impI, elim conjE)
    fix sec kp keys b
    assume l: "length keys = thresN"
      and m: "MarshalPromise E (ConstructPromise E sec kp thresT thresR keys) = Inr b"
    from marshal l obtain b' d where
      "MarshalPromise E (ConstructPromise E sec kp thresT thresR keys) = Inr b'"
      "UnmarshalPromise E thresT thresR thresN b' = Inr d"
      "\<forall>k kp'. ProduceResponse E d k kp'
           = ProduceResponse E (ConstructPromise E sec kp thresT thresR keys) k kp'"
      by blast
    with m show "\<exists>d. UnmarshalPromise E thresT thresR thresN b = Inr d
                       \<and> (\<forall>k kp'. ProduceResponse E d k kp'
                            = ProduceResponse E (ConstructPromise E sec kp thresT thresR keys) k kp')"
      by simp
  qed
  have enc1: "\<forall>ob w. \<exists>b w'. sigEncode E (srvsec (ss ! j)) ob w = (Inr b, w')" if "j < ?N" for j
    using encode that by blast
  have dec1: "\<forall>r2 w b w'. sigEncode E (srvsec (ss ! j)) (ObjR2 r2) w = (Inr b, w')
                   \<longrightarrow> b \<noteq> [] \<and> sigDecodeR2 E (pub ! j) b = Inr r2" if "j < ?N" for j
    using decode that by blast
  have resp1: "\<forall>sec kp keys k. k < length keys \<and> keys ! k = Point (pub ! j) \<longrightarrow>
                    (\<exists>sh rp b. ProduceResponse E (ConstructPromise E sec kp thresT thresR keys) k
                                   (keypair (ss ! j)) = Inr (sh, rp)
                                \<and> MarshalResponse E rp = Inr b)" if "j < ?N" for j
    using respond that by blast
  have dealer: "\<exists>sec dealb r1 b1 evs3.
           ?ev j = Recv (Inr (mss ! j ! 0)) # Send (ObjR1 r1) b1 None # Recv (Inr (mss ! j ! 1))
                   # Send (ObjR2 (R2 (r2_seed (?ev j)) dealb)) (r2_sent (?ev j)) None # evs3
           \<and> round3_run E (ss ! j) rc evs3 (fst (serve E (ss ! j) (sts ! j)))
           \<and> delivered [mss ! j ! 2, mss ! j ! 3] evs3
           \<and> r2_sent (?ev j) \<noteq> []
           \<and> sigDecodeR2 E (pub ! j) (r2_sent (?ev j)) = Inr (R2 (r2_seed (?ev j)) dealb)
           \<and> MarshalPromise E (ConstructPromise E sec (keypair (ss ! j)) thresT thresR
                 (map (\<lambda>x. Point (pub ! nat x)) (pickInsurers E pub rc (r2_seed (?ev j))))) = Inr dealb"
    if j: "j < ?N" for j
    using honest_dealer [OF events_run events_encoded del [OF j] cl [OF j]
        enc1 [OF j] dec1 [OF j] sel1 [OF j] marshal1]
    unfolding pub [OF j] .
  have slot: "\<not> slot_failure E ?s rc (I3 ?r2s) j \<and> present (I3 ?r2s) j
       \<and> slot_positions E ?s rc (I3 ?r2s) j
           = filter (\<lambda>k. pickInsurers E pub rc (r2_seed (?ev j)) ! k = int i) [0..<thresN]"
    if j: "j < ?N" for j
  proof -
    from dealer [OF j] obtain sec dealb where
      ne: "r2_sent (?ev j) \<noteq> []"
      and dec: "sigDecodeR2 E (pub ! j) (r2_sent (?ev j)) = Inr (R2 (r2_seed (?ev j)) dealb)"
      and mp: "MarshalPromise E (ConstructPromise E sec (keypair (ss ! j)) thresT thresR
                 (map (\<lambda>x. Point (pub ! nat x)) (pickInsurers E pub rc (r2_seed (?ev j))))) = Inr dealb"
      by blast
    have nth: "I3.R2s (I3 ?r2s) ! j = r2_sent (?ev j)" using j by simp
    have resp: "\<forall>sec kp keys k. k < length keys \<and> keys ! k = Point (srvpub ?s ! i) \<longrightarrow>
                    (\<exists>sh rp b. ProduceResponse E (ConstructPromise E sec kp thresT thresR keys) k (keypair ?s)
                                 = Inr (sh, rp) \<and> MarshalResponse E rp = Inr b)"
      using resp1 [OF i] unfolding pub [OF i] .
    have dec': "sigDecodeR2 E (srvpub ?s ! j) (I3.R2s (I3 ?r2s) ! j) = Inr (R2 (r2_seed (?ev j)) dealb)"
      using dec unfolding nth pub [OF i] .
    have ne': "I3.R2s (I3 ?r2s) ! j \<noteq> []" using ne unfolding nth .
    have mp': "MarshalPromise E (ConstructPromise E sec (keypair (ss ! j)) thresT thresR
                 (map (\<lambda>x. Point (srvpub ?s ! nat x)) (pickInsurers E (srvpub ?s) rc (r2_seed (?ev j))))) = Inr dealb"
      using mp unfolding pub [OF i] .
    have len': "length (pickInsurers E (srvpub ?s) rc (r2_seed (?ev j))) = thresN"
      using selector unfolding pub [OF i] by blast
    from honest_slot [OF dec' ne' mp' len' self [OF i] unmarshal resp]
    show ?thesis unfolding pub [OF i] .
  qed
  have nf: "\<not> list_ex (slot_failure E ?s rc (I3 ?r2s)) [0..<length (srvpub ?s)]"
    using slot by (auto simp: list_ex_iff pub [OF i] lpub)
  from dealer [OF i] obtain r1 b1 dealb evs3 where
    e12: "?ev i = Recv (Inr (mss ! i ! 0)) # Send (ObjR1 r1) b1 None # Recv (Inr (mss ! i ! 1))
                   # Send (ObjR2 (R2 (r2_seed (?ev i)) dealb)) (r2_sent (?ev i)) None # evs3"
    and r3: "round3_run E ?s rc evs3 (fst (serve E ?s (sts ! i)))"
    and del3: "delivered [mss ! i ! 2, mss ! i ! 3] evs3"
    by blast
  from cl [OF i] have d3: "sigDecodeI3 E (clipub ?s) (mss ! i ! 2) = Inr (I3 ?r2s)"
    and d4: "sigDecodeI4 E (clipub ?s) (mss ! i ! 3) = Inr (I4 acc)"
    and l4: "length acc = ?N"
    and sub: "list_all (\<lambda>j. acc ! j = [] \<or> acc ! j = ?r2s ! j) [0..<?N]"
    by (simp_all add: honest_client_def)
  have l3': "length (I3.R2s (I3 ?r2s)) = length (srvpub ?s)" by (simp add: pub [OF i] lpub)
  have l4': "length (I4.R2s (I4 acc)) = length (srvpub ?s)" using l4 by (simp add: pub [OF i] lpub)
  have sub': "list_all (\<lambda>j. I4.R2s (I4 acc) ! j = [] \<or> I4.R2s (I4 acc) ! j = I3.R2s (I3 ?r2s) ! j)
                [0..<length (srvpub ?s)]"
    using sub by (simp add: pub [OF i] lpub)
  from honest_rounds34 [OF r3 del3 d3 l3' nf d4 l4' sub' enc1 [OF i]]
  obtain r3' b3 b4 where res: "fst (serve E ?s (sts ! i)) = Value ()"
    and e34: "evs3 = [Recv (Inr (mss ! i ! 2)), Send (ObjR3 r3') b3 None, Recv (Inr (mss ! i ! 3)),
            Send (ObjR4 (R4 (concat (map (slot_shares E ?s rc (I3 ?r2s)) [0..<length (srvpub ?s)])))) b4 None]"
    by blast
  let ?shares = "concat (map (slot_shares E ?s rc (I3 ?r2s)) [0..<length (srvpub ?s)])"
  have allp: "filter (present (I3 ?r2s)) [0..<length (srvpub ?s)] = [0..<?N]"
    using slot by (auto simp: pub [OF i] lpub filter_id_conv)
  have "map share_key ?shares
      = concat (map (\<lambda>j. map (Pair j) (slot_positions E ?s rc (I3 ?r2s) j)) [0..<?N])"
    using all_shares_keys [OF nf] concat_present_shares [of E ?s rc "I3 ?r2s" "[0..<length (srvpub ?s)]"]
    unfolding allp by simp
  also have "\<dots> = held E pub rc ?seeds i"
    unfolding held_def using slot by (auto intro!: arg_cong [where f = concat])
  finally have keys: "map share_key ?shares = held E pub rc ?seeds i" .
  have "?shares \<noteq> [] \<longleftrightarrow> map share_key ?shares \<noteq> []" by (simp only: map_is_Nil_conv)
  also have "\<dots> \<longleftrightarrow> held E pub rc ?seeds i \<noteq> []" by (simp only: keys)
  also have "\<dots> \<longleftrightarrow> list_ex (\<lambda>j. int i \<in> set (pickInsurers E pub rc (?seeds ! j))) [0..<length ?seeds]"
    by (rule held_nonempty) (use selector in simp)
  also have "\<dots> \<longleftrightarrow> list_ex (\<lambda>j. int i \<in> set (pickInsurers E pub rc (r2_seed (?ev j)))) [0..<?N]"
    by (auto simp: list_ex_iff)
  finally have iff: "?shares \<noteq> [] \<longleftrightarrow>
      list_ex (\<lambda>j. int i \<in> set (pickInsurers E pub rc (r2_seed (?ev j)))) [0..<?N]" .
  have full: "?shares \<noteq> []" if n: "?N = thresN"
  proof -
    let ?sel = "pickInsurers E pub rc (r2_seed (?ev i))"
    from selector have c: "length ?sel = thresN \<and> distinct ?sel
        \<and> list_all (\<lambda>j. 0 \<le> j \<and> j < int (length pub)) ?sel"
      by (rule allE, elim allE)
    have d: "distinct ?sel" and l: "length ?sel = ?N"
      and r: "list_all (\<lambda>j. 0 \<le> j \<and> j < int ?N) ?sel"
      using c n lpub by simp_all
    have me: "0 \<le> int i" "int i < int ?N" using i by simp_all
    have "filter (\<lambda>k. ?sel ! k = int i) [0..<length ?sel] \<noteq> []"
      by (rule full_selection_selects [OF d l r me])
    then obtain k where "k < length ?sel" "?sel ! k = int i"
      by (auto simp: filter_empty_conv)
    then have "int i \<in> set ?sel" by (metis nth_mem)
    then have "list_ex (\<lambda>j. int i \<in> set (pickInsurers E pub rc (r2_seed (?ev j)))) [0..<?N]"
      using i unfolding list_ex_iff by (intro bexI [where x = i]) simp_all
    then show ?thesis unfolding iff .
  qed
  have ev: "?ev i = [Recv (Inr (mss ! i ! 0)), Send (ObjR1 r1) b1 None,
               Recv (Inr (mss ! i ! 1)), Send (ObjR2 (R2 (r2_seed (?ev i)) dealb)) (r2_sent (?ev i)) None,
               Recv (Inr (mss ! i ! 2)), Send (ObjR3 r3') b3 None,
               Recv (Inr (mss ! i ! 3)), Send (ObjR4 (R4 ?shares)) b4 None]"
    using e12 unfolding e34 .
  from full have full': "length ss = thresN \<longrightarrow> ?shares \<noteq> []" by blast
  from ev keys iff full' have "\<exists>r1 b1 r2 b2 r3 b3 b4 shares.
            events E (ss ! i) (sts ! i) =
              [Recv (Inr (mss ! i ! 0)), Send (ObjR1 r1) b1 None,
               Recv (Inr (mss ! i ! 1)), Send (ObjR2 r2) b2 None,
               Recv (Inr (mss ! i ! 2)), Send (ObjR3 r3) b3 None,
               Recv (Inr (mss ! i ! 3)), Send (ObjR4 (R4 shares)) b4 None]
            \<and> map share_key shares
                = held E pub rc (map (\<lambda>j. r2_seed (events E (ss ! j) (sts ! j))) [0..<length ss]) i
            \<and> (shares \<noteq> [] \<longleftrightarrow>
                 list_ex (\<lambda>j. int i \<in> set (pickInsurers E pub rc (r2_seed (events E (ss ! j) (sts ! j)))))
                   [0..<length ss])
            \<and> (length ss = thresN \<longrightarrow> shares \<noteq> [])"
    by (intro exI conjI)
  with res show ?thesis by (rule conjI)
qed


subsection \<open>The concrete sessions\<close>

lemmas serve_defs = serve_def serve_round2_def serve_round3_def serve_round4_def recv_def send_def
lemmas toy_defs = toy_env_def toy_server_def toy_session_def thresN_def thresT_def thresR_def Let_def upt_rec

lemma honest_run:
  "serve toy_env (toy_server 3 1) (toy_session honest_msgs) = (Value (), \<lparr>world = [], trace = honest_trace\<rparr>)"
  by (simp add: serve_defs toy_defs honest_msgs_def honest_trace_def)

lemma mismatch_run:
  "serve toy_env (toy_server 3 1) (toy_session mismatch_msgs) =
     (Error ''client random hash mismatch'',
      \<lparr>world = [], trace = [Recv (Inr [8]), Send (ObjR1 (R1 [11])) [11] None, Recv (Inr [2])]\<rparr>)"
  by (simp add: serve_defs toy_defs mismatch_msgs_def)

lemma tampered_run:
  "serve toy_env (toy_server 3 1) (toy_session tampered_msgs) =
     (Error ''R2 set in I4 not a subset of I3'',
      \<lparr>world = [], trace = take 6 honest_trace @ [Recv (Inr [3,8,9,8, 4,4,12,10,11, 0])]\<rparr>)"
  by (simp add: serve_defs toy_defs tampered_msgs_def honest_trace_def)

lemma oversize_run:
  "serve toy_env (toy_server 3 1) (toy_session oversize_msgs) =
     (Error ''wrong-length R2 array in I4 message'',
      \<lparr>world = [], trace = take 6 honest_trace @ [Recv (Inr [3,8,9,8, 4,4,12,10,11, 0, 0])]\<rparr>)"
  by (simp add: serve_defs toy_defs oversize_msgs_def honest_trace_def)

lemma bad_deal_run:
  "serve toy_env (toy_server 3 1) (toy_session bad_deal_msgs) =
     (Error ''bad deal'',
      \<lparr>world = [], trace = take 4 honest_trace @ [Recv (Inr [0, 4,4,12,10,11, 2,16,255])]\<rparr>)"
  by (simp add: serve_defs toy_defs bad_deal_msgs_def honest_trace_def)

lemma honest3:
  "honest_session net_env (net_servers 3) sessions3 [1] [r2s3 ! 0, r2s3 ! 1, []] [msgs3, msgs3, msgs3]"
  by code_simp

lemma honest4:
  "honest_session net_env (net_servers 4) sessions4 [1] r2s4 [msgs4, msgs4, msgs4, msgs4]"
  by code_simp

lemma run3_1:
  "serve net_env (net_servers 3 ! 1) (sessions3 ! 1) =
    (Value (),
  \<lparr>world = ([], 5),
     trace =
       [Recv (Inr [8]), Send (ObjR1 (R1 [11])) [11, 11] None,
        Recv (Inr [1]),
        Send (ObjR2 (R2 [4] [12, 10, 11])) [11, 1, 0, 4, 12, 10, 11] None,
        Recv
         (Inr [7, 10, 1, 0, 8, 10, 11, 12, 7, 11, 1, 0, 4, 12, 10, 11, 7,
               12, 1, 0, 16, 12, 10, 11]),
        Send (ObjR3 (R3 [R3Resp 0 1 [1], R3Resp 1 2 [2], R3Resp 2 2 [2]]))
         [11, 3] None,
        Recv
         (Inr [7, 10, 1, 0, 8, 10, 11, 12, 7, 11, 1, 0, 4, 12, 10, 11, 0]),
        Send (ObjR4 (R4 [R4Share 0 1 12, R4Share 1 2 13, R4Share 2 2 13]))
         [11, 4] None]\<rparr>)"
  by code_simp

lemma run4_0:
  "serve net_env (net_servers 4 ! 0) (sessions4 ! 0) =
   (Value (),
  \<lparr>world = ([], 5),
     trace =
       [Recv (Inr [8]), Send (ObjR1 (R1 [11])) [10, 11] None,
        Recv (Inr [1]),
        Send (ObjR2 (R2 [4] [11, 12, 13])) [10, 1, 0, 4, 11, 12, 13] None,
        Recv
         (Inr [7, 10, 1, 0, 4, 11, 12, 13, 7, 11, 1, 0, 8, 11, 12, 13, 7,
               12, 1, 0, 12, 11, 12, 13, 7, 13, 1, 0, 16, 11, 12, 13]),
        Send (ObjR3 (R3 [])) [10, 3] None,
        Recv
         (Inr [7, 10, 1, 0, 4, 11, 12, 13, 7, 11, 1, 0, 8, 11, 12, 13, 7,
               12, 1, 0, 12, 11, 12, 13, 7, 13, 1, 0, 16, 11, 12, 13]),
        Send (ObjR4 (R4 [])) [10, 4] None]\<rparr>)"
  by code_simp

lemma takeWhile_ones: "takeWhile (\<lambda>b. b = 1) (replicate n 1 @ 0 # xs) = replicate n (1 :: 8 word)"
  by (induction n) simp_all

lemma unframe_frame_R2: "unframe_R2 (frame_R2 r) = r"
  by (cases r) (simp add: unframe_R2_def frame_R2_def takeWhile_ones Let_def)

lemma net_roster_ok: "roster (net_servers n) (net_roster n)"
  by (simp add: roster_def net_servers_def net_roster_def net_server_def list_all_iff)

lemma net_deal: "deal_contract net_env"
  by (simp add: deal_contract_def net_env_def)

lemma net_codec: "j < n \<Longrightarrow> codec_contract net_env (srvsec (net_servers n ! j)) (net_roster n ! j)"
  by (auto simp: codec_contract_def net_env_def net_servers_def net_roster_def net_server_def unframe_frame_R2)

lemma net_share: "j < n \<Longrightarrow> share_contract net_env (keypair (net_servers n ! j)) (Point (net_roster n ! j))"
  by (auto simp: share_contract_def net_env_def net_servers_def net_roster_def net_server_def)

lemma net_selector3: "selector_contract net_env (net_roster 3)"
proof -
  have "distinct [int (x mod 3), int (Suc x mod 3), int (Suc (Suc x) mod 3)]" for x :: nat
    by (simp add: mod_Suc)
  then show ?thesis
    by (simp add: selector_contract_def net_env_def net_roster_def thresN_def upt_rec list_all_iff)
qed

lemma net_selector4: "selector_contract net_env (net_roster 4)"
proof -
  have "distinct [int (x mod 4), int (Suc x mod 4), int (Suc (Suc x) mod 4)]" for x :: nat
    by (simp add: mod_Suc)
  then show ?thesis
    by (simp add: selector_contract_def net_env_def net_roster_def thresN_def upt_rec list_all_iff)
qed

lemma net_collaborators3: "collaborators net_env (net_servers 3) (net_roster 3)"
  using net_selector3 net_deal net_codec [of _ 3] net_share [of _ 3]
  by (simp add: collaborators_def net_servers_def)

lemma net_collaborators4: "collaborators net_env (net_servers 4) (net_roster 4)"
  using net_selector4 net_deal net_codec [of _ 4] net_share [of _ 4]
  by (simp add: collaborators_def net_servers_def)


subsection \<open>The claims\<close>

lemmas run_defs = serve_run_def round2_run_def round3_run_def round4_run_def

text \<open>
  Claim C1 (commitment binding in round 2). Take any session of \<open>serve\<close> whose first
  received message \<open>m1\<close> decodes to an I1 and whose second received message \<open>m2\<close> decodes
  to an I2. If the hash of the revealed seed differs from the \<open>HRc\<close> of I1, then \<open>serve\<close>
  returns the error "client random hash mismatch", nothing at all follows the receipt of
  I2 on the connection (no R2, no other message), and the one message sent before it was
  R1.
\<close>

theorem commitment_binding:
  assumes run: "serve E s st = (res, st')"
    and tr: "trace st' = trace st @ Recv (Inr m1) # e1 # Recv (Inr m2) # rest"
    and d1: "sigDecodeI1 E (clipub s) m1 = Inr i1"
    and d2: "sigDecodeI2 E (clipub s) m2 = Inr i2"
    and ne: "suiteSum E (Rc i2) \<noteq> HRc i1"
  shows "res = Error ''client random hash mismatch'' \<and> rest = []
         \<and> (\<exists>r1 b1. e1 = Send (ObjR1 r1) b1 None)"
proof -
  from serve_runs [OF run] obtain evs where ev: "trace st' = trace st @ evs"
    and sr: "serve_run E s evs res" by blast
  from ev tr have "evs = Recv (Inr m1) # e1 # Recv (Inr m2) # rest" by simp
  then show ?thesis
    using sr d1 d2 ne unfolding serve_run_def round2_run_def by auto
qed

theorem commitment_binding_witness:
  "suiteSum toy_env (Rc (I2 [2])) \<noteq> HRc (I1 [8])
   \<and> serve toy_env (toy_server 3 1) (toy_session mismatch_msgs) =
       (Error ''client random hash mismatch'',
        \<lparr>world = [], trace = [Recv (Inr [8]), Send (ObjR1 (R1 [11])) [11] None, Recv (Inr [2])]\<rparr>)"
proof -
  have ne: "suiteSum toy_env (Rc (I2 [2])) \<noteq> HRc (I1 [8])" by (simp add: toy_env_def)
  have tr: "trace \<lparr>world = [], trace = [Recv (Inr [8]), Send (ObjR1 (R1 [11])) [11] None, Recv (Inr [2])]\<rparr>
      = trace (toy_session mismatch_msgs) @ Recv (Inr [8]) # Send (ObjR1 (R1 [11])) [11] None # Recv (Inr [2]) # []"
    by (simp add: toy_session_def)
  have d1: "sigDecodeI1 toy_env (clipub (toy_server 3 1)) [8] = Inr (I1 [8])" by (simp add: toy_env_def)
  have d2: "sigDecodeI2 toy_env (clipub (toy_server 3 1)) [2] = Inr (I2 [2])" by (simp add: toy_env_def)
  from commitment_binding [OF mismatch_run tr d1 d2 ne] ne mismatch_run show ?thesis by simp
qed

text \<open>
  Claim C2 (I4 subset enforcement), as amended. Take any session that received I3
  (\<open>m3\<close>) and I4 (\<open>m4\<close>), both decoding. If some slot \<open>i\<close> of the roster that the I4 array
  has carries a non-empty payload different from the I3 payload at \<open>i\<close> (an empty I3 slot
  included), then nothing follows the receipt of I4 (no R4) and \<open>serve\<close> returns an
  error: "R2 set in I4 not a subset of I3" when the I4 array has one slot per server,
  "wrong-length R2 array in I4 message" otherwise, because the length is checked first.
  Conversely, if anything follows the receipt of I4 (the R4), the I4 array has one slot
  per server and every populated slot equals the I3 slot.
\<close>

theorem subset_enforcement:
  assumes run: "serve E s st = (res, st')"
    and tr: "trace st' = trace st @ e0 # e1 # e2 # e3 # Recv (Inr m3) # e5 # Recv (Inr m4) # rest"
    and d3: "sigDecodeI3 E (clipub s) m3 = Inr i3"
    and d4: "sigDecodeI4 E (clipub s) m4 = Inr i4"
  shows "(\<forall>i. i < length (srvpub s) \<and> i < length (I4.R2s i4)
            \<and> I4.R2s i4 ! i \<noteq> [] \<and> I4.R2s i4 ! i \<noteq> I3.R2s i3 ! i
          \<longrightarrow> rest = [] \<and> res = Error (if length (I4.R2s i4) = length (srvpub s)
                 then ''R2 set in I4 not a subset of I3''
                 else ''wrong-length R2 array in I4 message''))
       \<and> (rest \<noteq> [] \<longrightarrow> length (I4.R2s i4) = length (srvpub s)
             \<and> (\<forall>i<length (srvpub s). I4.R2s i4 ! i = [] \<or> I4.R2s i4 ! i = I3.R2s i3 ! i))"
proof -
  from serve_runs [OF run] obtain evs where ev: "trace st' = trace st @ evs"
    and sr: "serve_run E s evs res" by blast
  from ev tr have evs: "evs = e0 # e1 # e2 # e3 # Recv (Inr m3) # e5 # Recv (Inr m4) # rest" by simp
  from sr evs d3 obtain shares where r4: "round4_run E s i3 shares (Recv (Inr m4) # rest) res"
    unfolding serve_run_def round2_run_def round3_run_def by auto
  from r4 d4 show ?thesis
    unfolding round4_run_def by (auto simp: i4_loop_None dest!: i4_loop_Some)
qed

theorem subset_enforcement_witness:
  "I4.R2s (I4 [[8,9,8], [4,12,10,11], []]) ! 0 \<noteq> I3.R2s (I3 [[8,9,9], [4,12,10,11], [16,7]]) ! 0
   \<and> fst (serve toy_env (toy_server 3 1) (toy_session tampered_msgs)) = Error ''R2 set in I4 not a subset of I3''
   \<and> length (trace (snd (serve toy_env (toy_server 3 1) (toy_session tampered_msgs)))) = 7"
proof -
  let ?i3 = "I3 [[8,9,9], [4,12,10,11], [16,7]]" and ?i4 = "I4 [[8,9,8], [4,12,10,11], []]"
  have tr: "trace \<lparr>world = [], trace = take 6 honest_trace @ [Recv (Inr [3,8,9,8, 4,4,12,10,11, 0])]\<rparr>
      = trace (toy_session tampered_msgs) @ honest_trace ! 0 # honest_trace ! 1 # honest_trace ! 2
          # honest_trace ! 3 # Recv (Inr [3, 8, 9, 9, 4, 4, 12, 10, 11, 2, 16, 7]) # honest_trace ! 5
          # Recv (Inr [3,8,9,8, 4,4,12,10,11, 0]) # []"
    by (simp add: toy_session_def honest_trace_def)
  have d3: "sigDecodeI3 toy_env (clipub (toy_server 3 1)) [3, 8, 9, 9, 4, 4, 12, 10, 11, 2, 16, 7] = Inr ?i3"
    by (simp add: toy_env_def)
  have d4: "sigDecodeI4 toy_env (clipub (toy_server 3 1)) [3,8,9,8, 4,4,12,10,11, 0] = Inr ?i4"
    by (simp add: toy_env_def)
  have pre: "0 < length (srvpub (toy_server 3 1)) \<and> 0 < length (I4.R2s ?i4)
            \<and> I4.R2s ?i4 ! 0 \<noteq> [] \<and> I4.R2s ?i4 ! 0 \<noteq> I3.R2s ?i3 ! 0"
    by (simp add: toy_server_def)
  have len: "length (I4.R2s ?i4) = length (srvpub (toy_server 3 1))"
    by (simp add: toy_server_def)
  from subset_enforcement [OF tampered_run tr d3 d4] pre len
  have "Error ''R2 set in I4 not a subset of I3'' = (Error ''R2 set in I4 not a subset of I3'' :: unit result)"
    by blast
  then show ?thesis using tampered_run pre by (simp add: honest_trace_def)
qed

text \<open>
  The claim as stated names one error for every such session. With an I4 array of four
  slots for three servers whose slot 0 is populated and differs from I3, \<open>serve\<close> returns
  the wrong-length error instead.
\<close>

theorem subset_enforcement_counterexample:
  "sigDecodeI3 toy_env (clipub (toy_server 3 1)) (oversize_msgs ! 2) = Inr (I3 [[8,9,9], [4,12,10,11], [16,7]])
   \<and> sigDecodeI4 toy_env (clipub (toy_server 3 1)) (oversize_msgs ! 3) = Inr (I4 [[8,9,8], [4,12,10,11], [], []])
   \<and> I4.R2s (I4 [[8,9,8], [4,12,10,11], [], []]) ! 0 \<noteq> []
   \<and> I4.R2s (I4 [[8,9,8], [4,12,10,11], [], []]) ! 0 \<noteq> I3.R2s (I3 [[8,9,9], [4,12,10,11], [16,7]]) ! 0
   \<and> fst (serve toy_env (toy_server 3 1) (toy_session oversize_msgs)) = Error ''wrong-length R2 array in I4 message''
   \<and> fst (serve toy_env (toy_server 3 1) (toy_session oversize_msgs)) \<noteq> Error ''R2 set in I4 not a subset of I3''"
  using oversize_run by (simp add: toy_env_def oversize_msgs_def)

text \<open>
  Claim C3 (round-3 error policy). Take any session that received I2 (\<open>m2\<close>) and a
  correctly sized I3 (\<open>m3\<close>). If some present slot fails (its signature does not decode,
  its deal does not deserialise, or a response for one of this server's positions cannot
  be produced or marshalled), \<open>serve\<close> returns an error and nothing follows the receipt of
  I3: no R3. If no present slot fails, no error comes from the slots: either the R3 is
  handed to the connection, or its encoding fails; and the R3 lists the responses of the
  present slots only, so an empty slot is skipped without error and contributes nothing
  (by \<open>slot_failure\<close>, \<open>slot_resps\<close> and \<open>slot_shares\<close> an empty slot neither fails nor
  contributes).
\<close>

theorem round3_error_policy:
  assumes run: "serve E s st = (res, st')"
    and tr: "trace st' = trace st @ e0 # e1 # Recv (Inr m2) # e3 # Recv (Inr m3) # rest"
    and d2: "sigDecodeI2 E (clipub s) m2 = Inr i2"
    and d3: "sigDecodeI3 E (clipub s) m3 = Inr i3"
    and len: "length (I3.R2s i3) = length (srvpub s)"
  shows "(list_ex (slot_failure E s (Rc i2) i3) [0..<length (srvpub s)]
            \<longrightarrow> rest = [] \<and> (\<exists>e. res = Error e))
       \<and> (\<not> list_ex (slot_failure E s (Rc i2) i3) [0..<length (srvpub s)]
            \<longrightarrow> (rest = [] \<and> (\<exists>e w w'. res = Error e \<and>
                     sigEncode E (srvsec s) (ObjR3 (R3 (concat (map (slot_resps E s (Rc i2) i3)
                        (filter (present i3) [0..<length (srvpub s)]))))) w = (Inl e, w')))
              \<or> (\<exists>b r rest'. rest = Send (ObjR3 (R3 (concat (map (slot_resps E s (Rc i2) i3)
                        (filter (present i3) [0..<length (srvpub s)]))))) b r # rest'))"
proof -
  from serve_runs [OF run] obtain evs where ev: "trace st' = trace st @ evs"
    and sr: "serve_run E s evs res" by blast
  from ev tr have evs: "evs = e0 # e1 # Recv (Inr m2) # e3 # Recv (Inr m3) # rest" by simp
  from sr evs d2 have r3: "round3_run E s (Rc i2) (Recv (Inr m3) # rest) res"
    unfolding serve_run_def round2_run_def by auto
  from r3 d3 len show ?thesis
    unfolding round3_run_def
    by (auto dest!: i3_loop_Inl i3_loop_Inr simp: concat_present_resps [symmetric])
qed

theorem round3_error_policy_witness:
  "list_ex (slot_failure toy_env (toy_server 3 1) [1] (I3 [[], [4,12,10,11], [16,255]])) [0..<3]
   \<and> \<not> slot_failure toy_env (toy_server 3 1) [1] (I3 [[], [4,12,10,11], [16,255]]) 0
   \<and> serve toy_env (toy_server 3 1) (toy_session bad_deal_msgs) =
       (Error ''bad deal'',
        \<lparr>world = [], trace = take 4 honest_trace @ [Recv (Inr [0, 4,4,12,10,11, 2,16,255])]\<rparr>)"
proof -
  let ?i3 = "I3 [[], [4,12,10,11], [16,255]]"
  have tr: "trace \<lparr>world = [], trace = take 4 honest_trace @ [Recv (Inr [0, 4,4,12,10,11, 2,16,255])]\<rparr>
      = trace (toy_session bad_deal_msgs) @ honest_trace ! 0 # honest_trace ! 1 # Recv (Inr [1])
          # honest_trace ! 3 # Recv (Inr [0, 4,4,12,10,11, 2,16,255]) # []"
    by (simp add: toy_session_def honest_trace_def)
  have d2: "sigDecodeI2 toy_env (clipub (toy_server 3 1)) [1] = Inr (I2 [1])" by (simp add: toy_env_def)
  have d3: "sigDecodeI3 toy_env (clipub (toy_server 3 1)) [0, 4,4,12,10,11, 2,16,255] = Inr ?i3"
    by (simp add: toy_env_def)
  have len: "length (I3.R2s ?i3) = length (srvpub (toy_server 3 1))" by (simp add: toy_server_def)
  have f: "list_ex (slot_failure toy_env (toy_server 3 1) [1] ?i3) [0..<3]" by code_simp
  have nf0: "\<not> slot_failure toy_env (toy_server 3 1) [1] ?i3 0" by code_simp
  have n3: "length (srvpub (toy_server 3 1)) = 3" by (simp add: toy_server_def)
  from round3_error_policy [OF bad_deal_run tr d2 d3 len] f n3
  have "\<exists>e. (Error ''bad deal'' :: unit result) = Error e" by simp
  then show ?thesis using f nf0 bad_deal_run by simp
qed

text \<open>
  Claim C4 (unconditional reveal). Whenever an R4 is sent, its shares are exactly the
  shares retained in round 3: for every present slot \<open>i\<close> of I3, in order, one triple
  \<open>(i, k, share)\<close> for every position \<open>k\<close> at which \<open>pickInsurers(roster, Rc, R2[i].Rs)\<close>
  holds this server's index. The I4 message (the event \<open>e6\<close>) does not occur in the
  result: nothing is filtered by the slots populated in I4. Nothing follows the R4.
\<close>

theorem unconditional_reveal:
  assumes run: "serve E s st = (res, st')"
    and tr: "trace st' = trace st @ e0 # e1 # Recv (Inr m2) # e3 # Recv (Inr m3) # e5 # e6
               # Send (ObjR4 (R4 shares)) b r # rest"
    and d2: "sigDecodeI2 E (clipub s) m2 = Inr i2"
    and d3: "sigDecodeI3 E (clipub s) m3 = Inr i3"
  shows "shares = concat (map (slot_shares E s (Rc i2) i3) (filter (present i3) [0..<length (srvpub s)]))
       \<and> map share_key shares =
           concat (map (\<lambda>i. map (Pair i) (slot_positions E s (Rc i2) i3 i))
             (filter (present i3) [0..<length (srvpub s)]))
       \<and> rest = []"
proof -
  from serve_runs [OF run] obtain evs where ev: "trace st' = trace st @ evs"
    and sr: "serve_run E s evs res" by blast
  from ev tr have evs: "evs = e0 # e1 # Recv (Inr m2) # e3 # Recv (Inr m3) # e5 # e6
               # Send (ObjR4 (R4 shares)) b r # rest" by simp
  from sr evs d2 have r3: "round3_run E s (Rc i2) (Recv (Inr m3) # e5 # e6
               # Send (ObjR4 (R4 shares)) b r # rest) res"
    unfolding serve_run_def round2_run_def by auto
  from r3 d3 obtain sh rp where loop: "i3_loop E s (Rc i2) i3 [0..<length (srvpub s)] ([], []) = Inr (sh, rp)"
    and r4: "round4_run E s i3 sh (e6 # Send (ObjR4 (R4 shares)) b r # rest) res"
    unfolding round3_run_def by auto
  from r4 have sh: "sh = shares" and rest: "rest = []"
    unfolding round4_run_def by auto
  from i3_loop_Inr [OF loop] have nf: "\<not> list_ex (slot_failure E s (Rc i2) i3) [0..<length (srvpub s)]"
    and eq: "sh = concat (map (slot_shares E s (Rc i2) i3) [0..<length (srvpub s)])"
    by simp_all
  have 1: "shares = concat (map (slot_shares E s (Rc i2) i3) (filter (present i3) [0..<length (srvpub s)]))"
    using eq sh concat_present_shares [of E s "Rc i2" i3] by simp
  show ?thesis
    using 1 rest all_shares_keys [OF nf] by simp
qed

theorem unconditional_reveal_witness:
  "I4.R2s (I4 (unframe (honest_msgs ! 3))) ! 2 = []
   \<and> serve toy_env (toy_server 3 1) (toy_session honest_msgs) = (Value (), \<lparr>world = [], trace = honest_trace\<rparr>)
   \<and> concat (map (slot_shares toy_env (toy_server 3 1) [1] (I3 (unframe (honest_msgs ! 2))))
         (filter (present (I3 (unframe (honest_msgs ! 2)))) [0..<3]))
       = [R4Share 0 1 10, R4Share 1 2 14, R4Share 2 2 9]"
proof -
  have tr: "trace \<lparr>world = [], trace = honest_trace\<rparr>
      = trace (toy_session honest_msgs) @ honest_trace ! 0 # honest_trace ! 1 # Recv (Inr [1])
          # honest_trace ! 3 # Recv (Inr (honest_msgs ! 2)) # honest_trace ! 5 # honest_trace ! 6
          # Send (ObjR4 (R4 [R4Share 0 1 10, R4Share 1 2 14, R4Share 2 2 9])) [4] None # []"
    by (simp add: toy_session_def honest_trace_def honest_msgs_def)
  have d2: "sigDecodeI2 toy_env (clipub (toy_server 3 1)) [1] = Inr (I2 [1])" by (simp add: toy_env_def)
  have d3: "sigDecodeI3 toy_env (clipub (toy_server 3 1)) (honest_msgs ! 2) = Inr (I3 (unframe (honest_msgs ! 2)))"
    by (simp add: toy_env_def)
  have n3: "length (srvpub (toy_server 3 1)) = 3" by (simp add: toy_server_def)
  have e: "I4.R2s (I4 (unframe (honest_msgs ! 3))) ! 2 = []" by (simp add: honest_msgs_def)
  from unconditional_reveal [OF honest_run tr d2 d3] n3 e honest_run show ?thesis by simp
qed

text \<open>
  Claim C5 (insurer selection: determinism and dual use). \<open>pickInsurers\<close> is a function of
  the roster and the two seeds (a parameter of the model, as the spec describes it), so
  equal inputs give equal selections. \<open>serve\<close> uses it in both roles with the same roster
  and the same client seed. As dealer: the deal in the R2 it sends is the promise
  constructed over the keys of \<open>pickInsurers E roster Rc Rs\<close>, \<open>Rs\<close> being the seed that R2
  reveals. As insurer: the entries of the R3 it sends are, slot by slot, the positions
  \<open>k\<close> at which \<open>pickInsurers E roster Rc (Rs r2i)\<close> holds this server's index, \<open>r2i\<close> being
  the R2 decoded from the slot.
\<close>

theorem insurer_selection_dual_use:
  assumes run: "serve E s st = (res, st')"
    and tr: "trace st' = trace st @ e0 # e1 # Recv (Inr m2) # Send (ObjR2 r2) b2 x2 # rest"
    and d2: "sigDecodeI2 E (clipub s) m2 = Inr i2"
  shows "(\<exists>secPair. MarshalPromise E (ConstructPromise E secPair (keypair s) thresT thresR
              (map (\<lambda>j. Point (srvpub s ! nat j)) (pickInsurers E (srvpub s) (Rc i2) (Rs r2))))
            = Inr (Deal r2))
       \<and> (\<forall>m3 i3 resps b3 x3 rest'.
             rest = Recv (Inr m3) # Send (ObjR3 (R3 resps)) b3 x3 # rest'
             \<and> sigDecodeI3 E (clipub s) m3 = Inr i3
           \<longrightarrow> map resp_key resps =
                 concat (map (\<lambda>i. map (Pair i) (slot_positions E s (Rc i2) i3 i))
                   (filter (present i3) [0..<length (srvpub s)])))
       \<and> (\<forall>i3 i r2i. sigDecodeR2 E (srvpub s ! i) (I3.R2s i3 ! i) = Inr r2i
           \<longrightarrow> slot_positions E s (Rc i2) i3 i =
                 filter (\<lambda>k. pickInsurers E (srvpub s) (Rc i2) (Rs r2i) ! k = self s)
                   [0..<length (pickInsurers E (srvpub s) (Rc i2) (Rs r2i))])"
proof -
  from serve_runs [OF run] obtain evs where ev: "trace st' = trace st @ evs"
    and sr: "serve_run E s evs res" by blast
  from ev tr have evs: "evs = e0 # e1 # Recv (Inr m2) # Send (ObjR2 r2) b2 x2 # rest" by simp
  from sr evs obtain i1 rs where r2: "round2_run E s i1 rs (Recv (Inr m2) # Send (ObjR2 r2) b2 x2 # rest) res"
    unfolding serve_run_def by auto
  from r2 d2 obtain secPair selkeys dealb where
        r2eq: "r2 = R2 rs dealb"
    and sk: "selkeys_loop (srvpub s) (pickInsurers E (srvpub s) (Rc i2) rs) = Some selkeys"
    and mp: "MarshalPromise E (ConstructPromise E secPair (keypair s) thresT thresR selkeys) = Inr dealb"
    and r3: "rest = [] \<or> round3_run E s (Rc i2) rest res"
    unfolding round2_run_def by auto
  have dealer: "\<exists>secPair. MarshalPromise E (ConstructPromise E secPair (keypair s) thresT thresR
              (map (\<lambda>j. Point (srvpub s ! nat j)) (pickInsurers E (srvpub s) (Rc i2) (Rs r2))))
            = Inr (Deal r2)"
    using selkeys_loop_Some [OF sk] mp r2eq by auto
  have insurer: "map resp_key resps =
                 concat (map (\<lambda>i. map (Pair i) (slot_positions E s (Rc i2) i3 i))
                   (filter (present i3) [0..<length (srvpub s)]))"
    if a: "rest = Recv (Inr m3) # Send (ObjR3 (R3 resps)) b3 x3 # rest'"
      and b: "sigDecodeI3 E (clipub s) m3 = Inr i3" for m3 i3 resps b3 x3 rest'
  proof -
    from r3 a have "round3_run E s (Rc i2) (Recv (Inr m3) # Send (ObjR3 (R3 resps)) b3 x3 # rest') res"
      by simp
    with b obtain sh where loop: "i3_loop E s (Rc i2) i3 [0..<length (srvpub s)] ([], []) = Inr (sh, resps)"
      unfolding round3_run_def by auto
    from i3_loop_Inr [OF loop] have nf: "\<not> list_ex (slot_failure E s (Rc i2) i3) [0..<length (srvpub s)]"
      and eq: "resps = concat (map (slot_resps E s (Rc i2) i3) [0..<length (srvpub s)])"
      by simp_all
    show ?thesis
      using eq concat_present_resps [of E s "Rc i2" i3] all_resps_keys [OF nf] by simp
  qed
  have same: "slot_positions E s (Rc i2) i3 i =
                 filter (\<lambda>k. pickInsurers E (srvpub s) (Rc i2) (Rs r2i) ! k = self s)
                   [0..<length (pickInsurers E (srvpub s) (Rc i2) (Rs r2i))]"
    if "sigDecodeR2 E (srvpub s ! i) (I3.R2s i3 ! i) = Inr r2i" for i3 i r2i
    using that by (simp add: slot_positions_def positions_def Let_def)
  show ?thesis using dealer insurer same by blast
qed

theorem insurer_selection_dual_use_witness:
  "pickInsurers toy_env (srvpub (toy_server 3 1)) [1] [4] = [2, 0, 1]
   \<and> serve toy_env (toy_server 3 1) (toy_session honest_msgs) = (Value (), \<lparr>world = [], trace = honest_trace\<rparr>)
   \<and> concat (map (\<lambda>i. map (Pair i) (slot_positions toy_env (toy_server 3 1) [1] (I3 (unframe (honest_msgs ! 2))) i))
         (filter (present (I3 (unframe (honest_msgs ! 2)))) [0..<3]))
       = [(0, 1), (1, 2), (2, 2)]"
proof -
  have tr: "trace \<lparr>world = [], trace = honest_trace\<rparr>
      = trace (toy_session honest_msgs) @ honest_trace ! 0 # honest_trace ! 1 # Recv (Inr [1])
          # Send (ObjR2 (R2 [4] [12, 10, 11])) [4, 12, 10, 11] None
          # Recv (Inr (honest_msgs ! 2))
          # Send (ObjR3 (R3 [R3Resp 0 1 [9, 9, 1], R3Resp 1 2 [12, 10, 11, 2], R3Resp 2 2 [7, 2]])) [3] None
          # [honest_trace ! 6, honest_trace ! 7]"
    by (simp add: toy_session_def honest_trace_def honest_msgs_def)
  have d2: "sigDecodeI2 toy_env (clipub (toy_server 3 1)) [1] = Inr (I2 [1])" by (simp add: toy_env_def)
  have d3: "sigDecodeI3 toy_env (clipub (toy_server 3 1)) (honest_msgs ! 2) = Inr (I3 (unframe (honest_msgs ! 2)))"
    by (simp add: toy_env_def)
  have n3: "length (srvpub (toy_server 3 1)) = 3" by (simp add: toy_server_def)
  have p: "pickInsurers toy_env (srvpub (toy_server 3 1)) [1] [4] = [2, 0, 1]" by code_simp
  from insurer_selection_dual_use [OF honest_run tr d2]
  have "map resp_key [R3Resp 0 1 [9, 9, 1], R3Resp 1 2 [12, 10, 11, 2], R3Resp 2 2 [7, 2]] =
          concat (map (\<lambda>i. map (Pair i) (slot_positions toy_env (toy_server 3 1) (Rc (I2 [1])) (I3 (unframe (honest_msgs ! 2))) i))
            (filter (present (I3 (unframe (honest_msgs ! 2)))) [0..<length (srvpub (toy_server 3 1))]))"
    using d3 by blast
  then show ?thesis using p honest_run n3 by (simp add: resp_key_def)
qed

text \<open>
  Claim C6 (strict alternation). The events of every session are, in order, an initial
  part of: receive, send R1, receive, send R2, receive, send R3, receive, send R4; every
  event but the last succeeded, so a failed receive or send ends the session; \<open>serve\<close>
  returns nil exactly when all eight events happened and the last send succeeded; and
  the messages that were answered pass every check \<open>serve\<close> makes on them, so a message
  that fails to decode or fails a check is followed by no send.
\<close>

theorem serve_message_order:
  assumes run: "serve E s st = (res, st')"
  shows "\<exists>evs. trace st' = trace st @ evs \<and> follows protocol_order evs
           \<and> (res = Value () \<longleftrightarrow> length evs = 8 \<and> event_ok (last evs))
           \<and> checks_pass E s (answered evs)"
proof -
  from serve_runs [OF run] obtain evs where ev: "trace st' = trace st @ evs"
    and sr: "serve_run E s evs res" by blast
  have a: "follows protocol_order evs \<and> (res = Value () \<longleftrightarrow> length evs = 8 \<and> event_ok (last evs))"
    using sr unfolding run_defs protocol_order_def by auto
  have b: "checks_pass E s (answered evs)"
    using sr unfolding run_defs checks_pass_def
    by (auto dest!: i3_loop_no_failure i4_loop_None_all)
  from ev a b show ?thesis by blast
qed

theorem serve_message_order_witness:
  "serve toy_env (toy_server 3 1) (toy_session honest_msgs) = (Value (), \<lparr>world = [], trace = honest_trace\<rparr>)
   \<and> follows protocol_order honest_trace \<and> length honest_trace = 8 \<and> event_ok (last honest_trace)
   \<and> checks_pass toy_env (toy_server 3 1) (answered honest_trace)"
proof -
  from serve_message_order [OF honest_run] show ?thesis
    using honest_run by (auto simp: toy_session_def)
qed

text \<open>
  Claim C7 (honest-session completion), as amended. Take a session of N servers in which
  all participants follow the protocol faithfully: every server runs \<open>serve\<close>, the client
  relays as the spec prescribes, the transport delivers, and the collaborators meet
  their contracts (the selector returns n = 3 distinct indices of the roster, so
  N \<ge> n \<ge> r \<ge> t \<ge> 1 with r = t = 2). Then every server returns nil after all eight
  messages, and its R4 holds exactly one share for each (dealer, index) at which a
  dealer's selection names the server. So the R4 is non-empty exactly when some dealer
  selected the server, which is certain when N = n.
\<close>

theorem honest_session_completes:
  assumes honest: "honest_session E ss sts rc acc mss"
    and roster: "roster ss pub"
    and contracts: "collaborators E ss pub"
    and i: "i < length ss"
  shows "fst (serve E (ss ! i) (sts ! i)) = Value ()
       \<and> (\<exists>r1 b1 r2 b2 r3 b3 b4 shares.
            events E (ss ! i) (sts ! i) =
              [Recv (Inr (mss ! i ! 0)), Send (ObjR1 r1) b1 None,
               Recv (Inr (mss ! i ! 1)), Send (ObjR2 r2) b2 None,
               Recv (Inr (mss ! i ! 2)), Send (ObjR3 r3) b3 None,
               Recv (Inr (mss ! i ! 3)), Send (ObjR4 (R4 shares)) b4 None]
            \<and> map share_key shares
                = held E pub rc (map (\<lambda>j. r2_seed (events E (ss ! j) (sts ! j))) [0..<length ss]) i
            \<and> (shares \<noteq> [] \<longleftrightarrow>
                 list_ex (\<lambda>j. int i \<in> set (pickInsurers E pub rc (r2_seed (events E (ss ! j) (sts ! j)))))
                   [0..<length ss])
            \<and> (length ss = thresN \<longrightarrow> shares \<noteq> []))"
proof (rule honest_session_serves [OF honest roster _ _ _ _ _ i])
  show "\<forall>rc rs. length (pickInsurers E pub rc rs) = thresN
          \<and> distinct (pickInsurers E pub rc rs)
          \<and> list_all (\<lambda>j. 0 \<le> j \<and> j < int (length pub)) (pickInsurers E pub rc rs)"
    using contracts by (simp add: collaborators_def selector_contract_def)
  show "\<forall>j<length ss. \<forall>ob w. \<exists>b w'. sigEncode E (srvsec (ss ! j)) ob w = (Inr b, w')"
    using contracts by (simp add: collaborators_def codec_contract_def)
  show "\<forall>j<length ss. \<forall>r2 w b w'. sigEncode E (srvsec (ss ! j)) (ObjR2 r2) w = (Inr b, w')
          \<longrightarrow> b \<noteq> [] \<and> sigDecodeR2 E (pub ! j) b = Inr r2"
    using contracts by (simp add: collaborators_def codec_contract_def)
  show "\<forall>sec kp keys. length keys = thresN \<longrightarrow>
          (\<exists>b d. MarshalPromise E (ConstructPromise E sec kp thresT thresR keys) = Inr b
             \<and> UnmarshalPromise E thresT thresR thresN b = Inr d
             \<and> (\<forall>k kp'. ProduceResponse E d k kp'
                  = ProduceResponse E (ConstructPromise E sec kp thresT thresR keys) k kp'))"
    using contracts unfolding collaborators_def deal_contract_def by (elim conjE)
  show "\<forall>j<length ss. \<forall>sec kp keys k. k < length keys \<and> keys ! k = Point (pub ! j) \<longrightarrow>
          (\<exists>sh rp b. ProduceResponse E (ConstructPromise E sec kp thresT thresR keys) k
                         (keypair (ss ! j)) = Inr (sh, rp)
                      \<and> MarshalResponse E rp = Inr b)"
    using contracts by (simp add: collaborators_def share_contract_def)
qed

theorem honest_session_completes_witness:
  "honest_session net_env (net_servers 3) sessions3 [1] [r2s3 ! 0, r2s3 ! 1, []] [msgs3, msgs3, msgs3]
   \<and> roster (net_servers 3) (net_roster 3)
   \<and> collaborators net_env (net_servers 3) (net_roster 3)
   \<and> fst (serve net_env (net_servers 3 ! 1) (sessions3 ! 1)) = Value ()
   \<and> last (events net_env (net_servers 3 ! 1) (sessions3 ! 1))
       = Send (ObjR4 (R4 [R4Share 0 1 12, R4Share 1 2 13, R4Share 2 2 13])) [11, 4] None
   \<and> held net_env (net_roster 3) [1] [[8], [4], [16]] 1 = [(0, 1), (1, 2), (2, 2)]"
proof -
  have i: "1 < length (net_servers 3)" by (simp add: net_servers_def)
  from honest_session_completes [OF honest3 net_roster_ok net_collaborators3 i]
  have res: "fst (serve net_env (net_servers 3 ! 1) (sessions3 ! 1)) = Value ()" by blast
  have ev: "last (events net_env (net_servers 3 ! 1) (sessions3 ! 1))
       = Send (ObjR4 (R4 [R4Share 0 1 12, R4Share 1 2 13, R4Share 2 2 13])) [11, 4] None"
    by (simp only: events_def run3_1) (simp add: sessions3_def net_session_def)
  have h: "held net_env (net_roster 3) [1] [[8], [4], [16]] 1 = [(0, 1), (1, 2), (2, 2)]"
    by code_simp
  from honest3 net_roster_ok net_collaborators3 res ev h show ?thesis by simp
qed

text \<open>
  The claim as stated promises a non-empty R4 for every N \<ge> n. With four servers and
  n = 3, in the honest session in which the selection of each of the four dealers is
  servers 1, 2 and 3, server 0 returns nil and sends an empty R4.
\<close>

theorem honest_session_empty_R4:
  "1 \<le> thresT \<and> thresT \<le> thresR \<and> thresR \<le> thresN \<and> thresN \<le> length (net_servers 4)
   \<and> honest_session net_env (net_servers 4) sessions4 [1] r2s4 [msgs4, msgs4, msgs4, msgs4]
   \<and> roster (net_servers 4) (net_roster 4)
   \<and> collaborators net_env (net_servers 4) (net_roster 4)
   \<and> fst (serve net_env (net_servers 4 ! 0) (sessions4 ! 0)) = Value ()
   \<and> last (events net_env (net_servers 4 ! 0) (sessions4 ! 0)) = Send (ObjR4 (R4 [])) [10, 4] None"
proof -
  have ev: "last (events net_env (net_servers 4 ! 0) (sessions4 ! 0)) = Send (ObjR4 (R4 [])) [10, 4] None"
    by (simp only: events_def run4_0) (simp add: sessions4_def net_session_def)
  have t: "1 \<le> thresT \<and> thresT \<le> thresR \<and> thresR \<le> thresN \<and> thresN \<le> length (net_servers 4)"
    by (simp add: thresT_def thresR_def thresN_def net_servers_def)
  from t honest4 net_roster_ok net_collaborators4 ev show ?thesis by (simp add: run4_0)
qed

end
